theory Spec2Isabelle
  imports Main "HOL-Library.Multiset"
begin

section \<open>Board states (puzzle/state.py)\<close>

text \<open>
  A board is the 3x3 integer grid held by \<open>State.board\<close> (a numpy array built from a
  list of rows). \<open>board[i, j]\<close> is \<open>at b i j\<close>; the in-place assignment
  \<open>board[i, j] = v\<close> is \<open>put b i j v\<close>. Coordinates are Python integers. The
  model reads and writes cells for coordinates inside the grid, which is where every
  theorem below uses it (\<open>grid3\<close>, \<open>valid_state\<close>).
\<close>

type_synonym board = "int list list"

definition at :: "board \<Rightarrow> int \<Rightarrow> int \<Rightarrow> int" where
  "at b i j = b ! nat i ! nat j"

definition put :: "board \<Rightarrow> int \<Rightarrow> int \<Rightarrow> int \<Rightarrow> board" where
  "put b i j v = b[nat i := (b ! nat i)[nat j := v]]"

record State =
  board :: board
  blank_pos :: "int \<times> int"

text \<open>The nested loops \<open>for i in range(3): for j in range(3)\<close>, in scan order.\<close>

definition cells :: "(int \<times> int) list" where
  "cells = [(0,0), (0,1), (0,2), (1,0), (1,1), (1,2), (2,0), (2,1), (2,2)]"

datatype py_error = IndexError | KeyError

text \<open>
  \<open>State._find_blank\<close>: the first cell, in row-major order, that holds 0; indexing the
  empty result of \<open>np.where\<close> raises \<open>IndexError\<close> when no cell does.
\<close>

definition find_blank :: "board \<Rightarrow> py_error + int \<times> int" where
  "find_blank b =
     (case find (\<lambda>c. at b (fst c) (snd c) = 0) cells of
        None \<Rightarrow> Inl IndexError
      | Some c \<Rightarrow> Inr c)"

text \<open>
  \<open>State.__init__\<close>: \<open>blank_pos or self._find_blank()\<close> keeps a position that was
  passed in and searches for the blank otherwise. \<open>get_neighbors\<close> always passes the
  position, so there the constructor is the record itself.
\<close>

definition new_State :: "board \<Rightarrow> (int \<times> int) option \<Rightarrow> py_error + State" where
  "new_State b blank =
     (case blank of
        Some p \<Rightarrow> Inr \<lparr>board = b, blank_pos = p\<rparr>
      | None \<Rightarrow>
          (case find_blank b of
             Inl err \<Rightarrow> Inl err
           | Inr p \<Rightarrow> Inr \<lparr>board = b, blank_pos = p\<rparr>))"

text \<open>\<open>State.__eq__\<close> (and \<open>__hash__\<close>): two states are equal iff their grids are.\<close>

definition state_eq :: "State \<Rightarrow> State \<Rightarrow> bool" where
  "state_eq a b = (board a = board b)"

text \<open>\<open>State.is_goal\<close>: the grid matches one of the goal grids.\<close>

fun is_goal :: "State \<Rightarrow> board list \<Rightarrow> bool" where
  "is_goal s [] = False"
| "is_goal s (goal # goal_states) = (if board s = goal then True else is_goal s goal_states)"

section \<open>Game rules (puzzle/game.py)\<close>

record PuzzleGame =
  goal_states :: "board list"

definition new_game :: PuzzleGame where
  "new_game = \<lparr>goal_states =
     [ [[1, 2, 3], [4, 5, 6], [7, 8, 0]],
       [[8, 7, 6], [5, 4, 3], [2, 1, 0]],
       [[0, 1, 2], [3, 4, 5], [6, 7, 8]],
       [[0, 8, 7], [6, 5, 4], [3, 2, 1]] ]\<rparr>"

definition are_adjacent :: "int \<Rightarrow> int \<Rightarrow> int \<Rightarrow> int \<Rightarrow> bool" where
  "are_adjacent i1 j1 i2 j2 =
     ((\<bar>i1 - i2\<bar> = 1 \<and> j1 = j2) \<or> (\<bar>j1 - j2\<bar> = 1 \<and> i1 = i2))"

text \<open>
  The dictionary \<open>positions\<close> built by the scan at the top of
  \<open>apply_special_rules\<close>: a later cell holding the same value overwrites an earlier one.
\<close>

definition note_position :: "board \<Rightarrow> int \<times> int \<Rightarrow> (int \<rightharpoonup> int \<times> int) \<Rightarrow> (int \<rightharpoonup> int \<times> int)" where
  "note_position b c m =
     (case c of (i, j) \<Rightarrow>
        if at b i j \<in> set [1, 2, 3, 4] then m(at b i j \<mapsto> (i, j)) else m)"

definition find_positions :: "board \<Rightarrow> (int \<rightharpoonup> int \<times> int)" where
  "find_positions b = fold (note_position b) cells Map.empty"

text \<open>
  The tuple assignment \<open>board[p], board[q] = board[q], board[p]\<close>: both cells are read
  first, then \<open>p\<close> is written, then \<open>q\<close>.
\<close>

definition swap_cells :: "board \<Rightarrow> int \<times> int \<Rightarrow> int \<times> int \<Rightarrow> board" where
  "swap_cells b p q =
     (case p of (i1, j1) \<Rightarrow> case q of (i3, j3) \<Rightarrow>
        (let v3 = at b i3 j3; v1 = at b i1 j1
         in put (put b i1 j1 v3) i3 j3 v1))"

text \<open>One of the two \<open>if a in positions and b in positions\<close> blocks, on the grid as it stands.\<close>

definition swap_if_adjacent :: "(int \<rightharpoonup> int \<times> int) \<Rightarrow> int \<Rightarrow> int \<Rightarrow> board \<Rightarrow> board" where
  "swap_if_adjacent positions a b brd =
     (case positions a of
        None \<Rightarrow> brd
      | Some (ia, ja) \<Rightarrow>
          (case positions b of
             None \<Rightarrow> brd
           | Some (ib, jb) \<Rightarrow>
               if are_adjacent ia ja ib jb then swap_cells brd (ia, ja) (ib, jb) else brd))"

text \<open>
  \<open>PuzzleGame.apply_special_rules\<close> mutates the state's grid in place; the model returns
  the state with the new grid. \<open>positions\<close> is computed once, before either swap.
\<close>

definition apply_special_rules :: "State \<Rightarrow> State" where
  "apply_special_rules s =
     (let positions = find_positions (board s);
          b1 = swap_if_adjacent positions 1 3 (board s);
          b2 = swap_if_adjacent positions 2 4 b1
      in s\<lparr>board := b2\<rparr>)"

text \<open>\<open>PuzzleGame.is_solvable\<close> reports every puzzle as solvable.\<close>

definition is_solvable :: "State \<Rightarrow> bool" where
  "is_solvable s = True"

section \<open>Neighbours (State.get_neighbors)\<close>

definition moves :: "(int \<times> int) list" where
  "moves = [(-1, 0), (1, 0), (0, -1), (0, 1)]"

text \<open>One iteration of the loop over \<open>moves\<close>: \<open>None\<close> when the bounds check fails.\<close>

definition slide :: "State \<Rightarrow> int \<times> int \<Rightarrow> State option" where
  "slide s m =
     (case blank_pos s of (i, j) \<Rightarrow> case m of (di, dj) \<Rightarrow>
        (let new_i = i + di; new_j = j + dj
         in if 0 \<le> new_i \<and> new_i < 3 \<and> 0 \<le> new_j \<and> new_j < 3
            then (let b1 = put (board s) i j (at (board s) new_i new_j);
                      b2 = put b1 new_i new_j 0
                  in Some (apply_special_rules \<lparr>board = b2, blank_pos = (new_i, new_j)\<rparr>))
            else None))"

definition get_neighbors :: "State \<Rightarrow> State list" where
  "get_neighbors s = List.map_filter (slide s) moves"

section \<open>Heuristics (algorithm/heuristics.py)\<close>

text \<open>
  A heuristic value is a Python number: an integer, or the float \<open>inf\<close> that both
  functions start their running minimum with.
\<close>

datatype pynum = Fin int | PInf

fun num_less :: "pynum \<Rightarrow> pynum \<Rightarrow> bool" where
  "num_less (Fin a) (Fin b) = (a < b)"
| "num_less (Fin a) PInf = True"
| "num_less PInf _ = False"

text \<open>Python's two-argument \<open>min(a, b)\<close> returns \<open>b\<close> only when \<open>b < a\<close>.\<close>

definition num_min :: "pynum \<Rightarrow> pynum \<Rightarrow> pynum" where
  "num_min a b = (if num_less b a then b else a)"

fun num_add :: "pynum \<Rightarrow> pynum \<Rightarrow> pynum" where
  "num_add (Fin a) (Fin b) = Fin (a + b)"
| "num_add _ _ = PInf"

definition note_goal_position :: "board \<Rightarrow> int \<times> int \<Rightarrow> (int \<rightharpoonup> int \<times> int) \<Rightarrow> (int \<rightharpoonup> int \<times> int)" where
  "note_goal_position goal c m =
     (case c of (i, j) \<Rightarrow> if at goal i j \<noteq> 0 then m(at goal i j \<mapsto> (i, j)) else m)"

definition goal_positions :: "board \<Rightarrow> (int \<rightharpoonup> int \<times> int)" where
  "goal_positions goal = fold (note_goal_position goal) cells Map.empty"

definition add_tile_distance :: "State \<Rightarrow> (int \<rightharpoonup> int \<times> int) \<Rightarrow> int \<times> int \<Rightarrow> int \<Rightarrow> int" where
  "add_tile_distance s gp c distance =
     (case c of (i, j) \<Rightarrow>
        if at (board s) i j \<noteq> 0 then
          (case gp (at (board s) i j) of
             Some (gi, gj) \<Rightarrow> distance + (\<bar>i - gi\<bar> + \<bar>j - gj\<bar>)
           | None \<Rightarrow> distance)
        else distance)"

text \<open>The body of the loop over goals in \<open>manhattan_distance\<close>: the distance to one goal.\<close>

definition goal_distance :: "State \<Rightarrow> board \<Rightarrow> int" where
  "goal_distance s goal = fold (add_tile_distance s (goal_positions goal)) cells 0"

text \<open>\<open>min_distance = min(min_distance, distance)\<close> for one goal.\<close>

definition min_with_distance :: "State \<Rightarrow> board \<Rightarrow> pynum \<Rightarrow> pynum" where
  "min_with_distance s goal min_distance = num_min min_distance (Fin (goal_distance s goal))"

definition manhattan_distance :: "State \<Rightarrow> board list \<Rightarrow> pynum" where
  "manhattan_distance s goals = fold (min_with_distance s) goals PInf"

text \<open>The generator sum in \<open>misplaced_tiles\<close>: one for every non-blank cell that differs.\<close>

definition goal_misplaced :: "State \<Rightarrow> board \<Rightarrow> int" where
  "goal_misplaced s goal =
     sum_list (map (\<lambda>c. 1)
       (filter (\<lambda>c. case c of (i, j) \<Rightarrow> at (board s) i j \<noteq> 0 \<and> at (board s) i j \<noteq> at goal i j) cells))"

text \<open>\<open>min_misplaced = min(min_misplaced, misplaced)\<close> for one goal.\<close>

definition min_with_misplaced :: "State \<Rightarrow> board \<Rightarrow> pynum \<Rightarrow> pynum" where
  "min_with_misplaced s goal min_misplaced = num_min min_misplaced (Fin (goal_misplaced s goal))"

definition misplaced_tiles :: "State \<Rightarrow> board list \<Rightarrow> pynum" where
  "misplaced_tiles s goals = fold (min_with_misplaced s) goals PInf"

section \<open>Search engine (algorithm/astar.py)\<close>

record AStar =
  game :: PuzzleGame
  heuristic_func :: "State \<Rightarrow> board list \<Rightarrow> pynum"
  nodes_expanded :: nat
  max_frontier_size :: nat
  search_tree :: "(State \<times> State) list"

text \<open>\<open>AStar.__init__\<close>.\<close>

definition new_AStar :: "PuzzleGame \<Rightarrow> (State \<Rightarrow> board list \<Rightarrow> pynum) \<Rightarrow> AStar" where
  "new_AStar gm h =
     \<lparr>game = gm, heuristic_func = h, nodes_expanded = 0, max_frontier_size = 0, search_tree = []\<rparr>"

text \<open>
  The frontier holds tuples \<open>(f, counter, state)\<close>. Python compares tuples
  lexicographically; the counter grows with every push, so two entries never agree in
  both \<open>f\<close> and counter and the comparison never reaches the states. \<open>heapq\<close> is the
  standard library's priority queue and is modelled by its contract: \<open>heappush\<close> adds
  an item, \<open>heappop\<close> removes and returns the smallest one. \<open>heappop\<close> is only called
  on a non-empty frontier (the \<open>while open_set\<close> test).
\<close>

type_synonym entry = "pynum \<times> nat \<times> State"

fun entry_less :: "entry \<Rightarrow> entry \<Rightarrow> bool" where
  "entry_less (f1, c1, s1) (f2, c2, s2) = (if f1 = f2 then c1 < c2 else num_less f1 f2)"

definition heappush :: "entry list \<Rightarrow> entry \<Rightarrow> entry list" where
  "heappush heap item = heap @ [item]"

fun smallest :: "entry \<Rightarrow> entry list \<Rightarrow> entry" where
  "smallest m [] = m"
| "smallest m (e # es) = smallest (if entry_less e m then e else m) es"

fun heappop :: "entry list \<Rightarrow> entry \<times> entry list" where
  "heappop (e # es) = (let m = smallest e es in (m, remove1 m (e # es)))"
| "heappop [] = undefined"

text \<open>What a call ends with: an exception, or the returned value (\<open>None\<close> or a path).\<close>

datatype outcome = Raised py_error | Returned "State list option"

text \<open>
  \<open>AStar._reconstruct_path\<close>. The dictionaries of \<open>search\<close> are keyed by states, which
  hash and compare by their grid, so the model keys them by the grid. \<open>parent\<close> maps the
  initial state to \<open>None\<close> and any other recorded state to its predecessor.
\<close>

partial_function (option) reconstruct_loop ::
  "(board \<rightharpoonup> State option) \<Rightarrow> State \<Rightarrow> State list \<Rightarrow> outcome option" where
  "reconstruct_loop par current path =
     (case par (board current) of
        None \<Rightarrow> Some (Raised KeyError)
      | Some None \<Rightarrow> Some (Returned (Some (rev path)))
      | Some (Some p) \<Rightarrow> reconstruct_loop par p (path @ [p]))"

declare reconstruct_loop.simps [code]

definition reconstruct_path :: "(board \<rightharpoonup> State option) \<Rightarrow> State \<Rightarrow> outcome option" where
  "reconstruct_path par current = reconstruct_loop par current [current]"

text \<open>The local variables of \<open>search\<close>, together with the engine object it updates.\<close>

record search_vars =
  open_set :: "entry list"
  closed_set :: "board set"
  g_values :: "board \<rightharpoonup> int"
  parent :: "board \<rightharpoonup> State option"
  counter :: nat
  self :: AStar

text \<open>The body of \<open>for neighbor in current.get_neighbors(self.game)\<close>.\<close>

definition consider_neighbor :: "State \<Rightarrow> int \<Rightarrow> State \<Rightarrow> search_vars \<Rightarrow> search_vars" where
  "consider_neighbor current current_g neighbor v =
     (if board neighbor \<in> closed_set v then v
      else
        (let new_g = current_g + 1
         in if (case g_values v (board neighbor) of Some g \<Rightarrow> new_g \<ge> g | None \<Rightarrow> False) then v
            else
              (let h = heuristic_func (self v) neighbor (goal_states (game (self v)));
                   f = num_add (Fin new_g) h
               in v\<lparr>parent := (parent v)(board neighbor \<mapsto> Some current),
                     g_values := (g_values v)(board neighbor \<mapsto> new_g),
                     self := (self v)\<lparr>search_tree := search_tree (self v) @ [(current, neighbor)]\<rparr>,
                     counter := counter v + 1,
                     open_set := heappush (open_set v) (f, counter v + 1, neighbor)\<rparr>)))"

text \<open>
  The two updates of the engine's counters inside the loop:
  \<open>self.max_frontier_size = max(self.max_frontier_size, len(open_set))\<close> and
  \<open>self.nodes_expanded += 1\<close>.
\<close>

definition track_peak :: "search_vars \<Rightarrow> AStar" where
  "track_peak v =
     (self v)\<lparr>max_frontier_size := max (max_frontier_size (self v)) (length (open_set v))\<rparr>"

definition count_expansion :: "AStar \<Rightarrow> AStar" where
  "count_expansion e = e\<lparr>nodes_expanded := nodes_expanded e + 1\<rparr>"

text \<open>
  One pass through the body of \<open>while open_set\<close>: the loop ends with an outcome, ends by
  reaching a goal (the path is then reconstructed), or goes round again. The lookup
  \<open>g_values[current]\<close> raises \<open>KeyError\<close> for a state that was never recorded.
\<close>

datatype pass = Stop outcome AStar | Goal State "board \<rightharpoonup> State option" AStar | Continue search_vars

definition loop_body :: "search_vars \<Rightarrow> pass" where
  "loop_body v =
     (case open_set v of
        [] \<Rightarrow> Stop (Returned None) (self v)
      | e # es \<Rightarrow>
          (let slf = track_peak v
           in case heappop (e # es) of ((f, c, current), rest) \<Rightarrow>
             if is_goal current (goal_states (game slf)) then Goal current (parent v) slf
             else if board current \<in> closed_set v then Continue (v\<lparr>open_set := rest, self := slf\<rparr>)
             else
               (case g_values v (board current) of
                  None \<Rightarrow> Stop (Raised KeyError) (count_expansion slf)
                | Some current_g \<Rightarrow>
                    Continue (fold (consider_neighbor current current_g) (get_neighbors current)
                      (v\<lparr>open_set := rest,
                         closed_set := insert (board current) (closed_set v),
                         self := count_expansion slf\<rparr>)))))"

text \<open>
  The \<open>while\<close> loop. \<open>None\<close> stands for a run that never returns; \<open>Some (out, eng)\<close> is
  a run that ends with outcome \<open>out\<close> and leaves the engine in state \<open>eng\<close>.
\<close>

partial_function (option) search_loop :: "search_vars \<Rightarrow> (outcome \<times> AStar) option" where
  "search_loop v =
     (case loop_body v of
        Stop out slf \<Rightarrow> Some (out, slf)
      | Goal current par slf \<Rightarrow> map_option (\<lambda>out. (out, slf)) (reconstruct_path par current)
      | Continue v' \<Rightarrow> search_loop v')"

declare search_loop.simps [code]

text \<open>\<open>AStar.search\<close>.\<close>

definition search :: "AStar \<Rightarrow> State \<Rightarrow> (outcome \<times> AStar) option" where
  "search slf initial_state =
     (if \<not> is_solvable initial_state then Some (Returned None, slf)
      else
        (let h = heuristic_func slf initial_state (goal_states (game slf))
         in search_loop
              \<lparr>open_set = heappush [] (h, 0, initial_state),
               closed_set = {},
               g_values = [board initial_state \<mapsto> 0],
               parent = [board initial_state \<mapsto> None],
               counter = 0,
               self = slf\<rparr>))"

section \<open>Paths and validity\<close>

text \<open>
  A sequence of states in which each state is followed by one of its neighbours, compared
  as Python's \<open>in\<close> compares states (by grid).
\<close>

fun is_path :: "State list \<Rightarrow> bool" where
  "is_path [] = True"
| "is_path [s] = True"
| "is_path (p # q # rest) = (list_ex (\<lambda>n. state_eq n q) (get_neighbors p) \<and> is_path (q # rest))"

section \<open>Well-formed boards and the swap rule in sequence\<close>

text \<open>Coordinates that lie inside the 3x3 grid, and grids of three rows of three cells.\<close>

definition in_grid :: "int \<Rightarrow> int \<Rightarrow> bool" where
  "in_grid i j = (0 \<le> i \<and> i < 3 \<and> 0 \<le> j \<and> j < 3)"

definition grid3 :: "board \<Rightarrow> bool" where
  "grid3 b = (length b = 3 \<and> length (b ! 0) = 3 \<and> length (b ! 1) = 3 \<and> length (b ! 2) = 3)"

text \<open>The invariant of a board state: the nine cells hold each of 0..8 exactly once.\<close>

definition valid_board :: "board \<Rightarrow> bool" where
  "valid_board b = (grid3 b \<and> mset (concat b) = mset [0, 1, 2, 3, 4, 5, 6, 7, 8])"

text \<open>... and the cached blank position points at the cell holding 0.\<close>

definition valid_state :: "State \<Rightarrow> bool" where
  "valid_state s =
     (valid_board (board s) \<and>
      (case blank_pos s of (i, j) \<Rightarrow> in_grid i j \<and> at (board s) i j = 0))"

text \<open>
  The swap rule as the specification words it, written without the code's helpers.
  "The cell holding \<open>v\<close>": on a board state every value occurs once; the cell is found by
  reading the grid row by row.
\<close>

definition cell_holding :: "board \<Rightarrow> int \<Rightarrow> (int \<times> int) option" where
  "cell_holding b v =
     find (\<lambda>c. at b (fst c) (snd c) = v) [(i, j). i \<leftarrow> [0, 1, 2], j \<leftarrow> [0, 1, 2]]"

text \<open>"Orthogonally adjacent (Manhattan distance exactly 1, not diagonal)".\<close>

definition orthogonally_adjacent :: "int \<times> int \<Rightarrow> int \<times> int \<Rightarrow> bool" where
  "orthogonally_adjacent p q = (\<bar>fst p - fst q\<bar> + \<bar>snd p - snd q\<bar> = 1)"

text \<open>
  "Swap their contents": the grid in which cell \<open>p\<close> holds what \<open>q\<close> held, cell \<open>q\<close>
  holds what \<open>p\<close> held, and every other cell is as before.
\<close>

definition exchange_contents :: "board \<Rightarrow> int \<times> int \<Rightarrow> int \<times> int \<Rightarrow> board" where
  "exchange_contents b p q =
     map (\<lambda>i. map (\<lambda>j. if (i, j) = p then at b (fst q) (snd q)
                         else if (i, j) = q then at b (fst p) (snd p)
                         else at b i j) [0, 1, 2]) [0, 1, 2]"

text \<open>
  One step for a pair of values: if the cells holding \<open>x\<close> and \<open>y\<close> on the grid as it
  stands are orthogonally adjacent, their contents are swapped.
\<close>

definition swap_step :: "int \<Rightarrow> int \<Rightarrow> board \<Rightarrow> board" where
  "swap_step x y b =
     (case cell_holding b x of
        None \<Rightarrow> b
      | Some p \<Rightarrow>
          (case cell_holding b y of
             None \<Rightarrow> b
           | Some q \<Rightarrow> if orthogonally_adjacent p q then exchange_contents b p q else b))"

text \<open>
  The sequenced procedure: the step for (1, 3) first, then the step for (2, 4) on the
  grid the first step leaves, so that its adjacency is judged after any (1, 3) swap.
\<close>

definition swap_rule_sequenced :: "board \<Rightarrow> board" where
  "swap_rule_sequenced b = swap_step 2 4 (swap_step 1 3 b)"

text \<open>
  For the proofs: one of the code's two blocks with the \<open>positions\<close> dictionary built
  afresh from the grid it is given.
\<close>

definition swap_pair :: "int \<Rightarrow> int \<Rightarrow> board \<Rightarrow> board" where
  "swap_pair a b brd = swap_if_adjacent (find_positions brd) a b brd"

text \<open>Python's \<open>a <= b\<close> on heuristic values.\<close>

definition num_le :: "pynum \<Rightarrow> pynum \<Rightarrow> bool" where
  "num_le a b = (a = b \<or> num_less a b)"

text \<open>A grid that holds every non-blank tile of the state somewhere.\<close>

definition covers :: "board \<Rightarrow> board \<Rightarrow> bool" where
  "covers g b \<longleftrightarrow>
     (\<forall>i j. in_grid i j \<longrightarrow> at b i j \<noteq> 0 \<longrightarrow> (\<exists>k l. in_grid k l \<and> at g k l = at b i j))"


section \<open>Engines that have searched before\<close>

text \<open>
  The instrumentation fields are set in \<open>__init__\<close> only. \<open>carry n m t e\<close> is the engine
  \<open>e\<close> with \<open>n\<close> earlier expansions, an earlier peak \<open>m\<close> and an earlier log \<open>t\<close> in front
  of what \<open>e\<close> holds; it is lifted to the loop variables and to the result of one pass.
\<close>

definition carry :: "nat \<Rightarrow> nat \<Rightarrow> (State \<times> State) list \<Rightarrow> AStar \<Rightarrow> AStar" where
  "carry n m t e =
     e\<lparr>nodes_expanded := n + nodes_expanded e,
       max_frontier_size := max m (max_frontier_size e),
       search_tree := t @ search_tree e\<rparr>"

definition carry_vars :: "nat \<Rightarrow> nat \<Rightarrow> (State \<times> State) list \<Rightarrow> search_vars \<Rightarrow> search_vars" where
  "carry_vars n m t v = v\<lparr>self := carry n m t (self v)\<rparr>"

fun carry_pass :: "nat \<Rightarrow> nat \<Rightarrow> (State \<times> State) list \<Rightarrow> pass \<Rightarrow> pass" where
  "carry_pass n m t (Stop out e) = Stop out (carry n m t e)"
| "carry_pass n m t (Goal current par e) = Goal current par (carry n m t e)"
| "carry_pass n m t (Continue v) = Continue (carry_vars n m t v)"

text \<open>Two calls of \<open>search\<close> on one engine object, one after the other, from the same state.\<close>

definition search_twice :: "AStar \<Rightarrow> State \<Rightarrow> ((outcome \<times> AStar) \<times> (outcome \<times> AStar)) option" where
  "search_twice e s =
     (case search e s of
        None \<Rightarrow> None
      | Some (out1, e1) \<Rightarrow>
          (case search e1 s of
             None \<Rightarrow> None
           | Some (out2, e2) \<Rightarrow> Some ((out1, e1), (out2, e2))))"

text \<open>What a caller reads after a run: the outcome and the two counters.\<close>

definition report :: "(outcome \<times> AStar) \<Rightarrow> outcome \<times> nat \<times> nat" where
  "report r = (fst r, nodes_expanded (snd r), max_frontier_size (snd r))"

section \<open>The parent links kept by search\<close>

text \<open>
  Every recorded predecessor link is an edge of the move graph, and only the initial
  state is recorded without a predecessor.
\<close>

definition links_ok :: "State \<Rightarrow> (board \<rightharpoonup> State option) \<Rightarrow> bool" where
  "links_ok s0 par \<longleftrightarrow>
     (\<forall>k. par k = Some None \<longrightarrow> k = board s0) \<and>
     (\<forall>k p. par k = Some (Some p) \<longrightarrow> (\<exists>n \<in> set (get_neighbors p). board n = k))"

section \<open>Heuristics on an empty goal set\<close>

text \<open>
  C7, as the code has it: with an empty goal list the loop over goals does not run, and
  both heuristics return the float infinity they started with, for every state; no error
  is raised.
\<close>

theorem heuristics_empty_goals_inf:
  "manhattan_distance s [] = PInf \<and> misplaced_tiles s [] = PInf"
  by (simp add: manhattan_distance_def misplaced_tiles_def)

text \<open>
  C7 as stated fails: on the solved board and an empty goal list both heuristics return
  an infinite estimate.
\<close>

theorem heuristics_empty_goals_counterexample:
  "manhattan_distance \<lparr>board = [[1, 2, 3], [4, 5, 6], [7, 8, 0]], blank_pos = (2, 2)\<rparr> [] = PInf
   \<and> misplaced_tiles \<lparr>board = [[1, 2, 3], [4, 5, 6], [7, 8, 0]], blank_pos = (2, 2)\<rparr> [] = PInf"
  by (simp add: manhattan_distance_def misplaced_tiles_def)

section \<open>Cells of a 3x3 grid\<close>

lemma in_grid_cases:
  assumes "in_grid i j"
  obtains "i = 0" "j = 0" | "i = 0" "j = 1" | "i = 0" "j = 2"
        | "i = 1" "j = 0" | "i = 1" "j = 1" | "i = 1" "j = 2"
        | "i = 2" "j = 0" | "i = 2" "j = 1" | "i = 2" "j = 2"
proof -
  from assms have "i = 0 \<or> i = 1 \<or> i = 2" "j = 0 \<or> j = 1 \<or> j = 2"
    unfolding in_grid_def by auto
  then show thesis using that by blast
qed

lemma in_grid_cells: "in_grid i j \<longleftrightarrow> (i, j) \<in> set cells"
proof
  assume "in_grid i j"
  then show "(i, j) \<in> set cells"
    by (rule in_grid_cases) (simp_all add: cells_def)
next
  assume "(i, j) \<in> set cells"
  then show "in_grid i j"
    by (auto simp: cells_def in_grid_def)
qed

lemma length3: "length xs = 3 \<Longrightarrow> \<exists>a b c. xs = [a, b, c]"
  by (cases xs; cases "tl xs"; cases "tl (tl xs)") auto

lemma grid3_explicit:
  assumes "grid3 b"
  obtains a0 a1 a2 a3 a4 a5 a6 a7 a8 where "b = [[a0, a1, a2], [a3, a4, a5], [a6, a7, a8]]"
proof -
  from assms obtain r0 r1 r2 where b: "b = [r0, r1, r2]"
    unfolding grid3_def using length3 by blast
  with assms have "length r0 = 3" "length r1 = 3" "length r2 = 3"
    unfolding grid3_def by simp_all
  then obtain a0 a1 a2 a3 a4 a5 a6 a7 a8 where
    "r0 = [a0, a1, a2]" "r1 = [a3, a4, a5]" "r2 = [a6, a7, a8]"
    using length3 by metis
  with b show thesis using that by blast
qed

lemma grid3_put: "grid3 b \<Longrightarrow> grid3 (put b i j v)"
  by (erule grid3_explicit) (auto simp: grid3_def put_def nth_list_update nth_Cons split: nat.splits)

lemma at_put:
  assumes "grid3 b" "in_grid i j" "in_grid k l"
  shows "at (put b i j v) k l = (if k = i \<and> l = j then v else at b k l)"
proof -
  from assms(1) obtain a0 a1 a2 a3 a4 a5 a6 a7 a8 where
    b: "b = [[a0, a1, a2], [a3, a4, a5], [a6, a7, a8]]" by (rule grid3_explicit)
  show ?thesis
    using assms(2) assms(3)
    by (elim in_grid_cases) (simp_all add: b at_def put_def)
qed

lemma grid3_swap_cells: "grid3 b \<Longrightarrow> grid3 (swap_cells b p q)"
  by (cases p; cases q) (simp add: swap_cells_def grid3_put)

lemma at_swap_cells:
  assumes "grid3 b" "in_grid i1 j1" "in_grid i3 j3" "in_grid k l"
  shows "at (swap_cells b (i1, j1) (i3, j3)) k l =
           (if k = i3 \<and> l = j3 then at b i1 j1 else if k = i1 \<and> l = j1 then at b i3 j3 else at b k l)"
  using assms by (simp add: swap_cells_def at_put grid3_put)

lemma mset_swap_cells:
  assumes "grid3 b" "in_grid i1 j1" "in_grid i3 j3"
  shows "mset (concat (swap_cells b (i1, j1) (i3, j3))) = mset (concat b)"
proof -
  from assms(1) obtain a0 a1 a2 a3 a4 a5 a6 a7 a8 where
    b: "b = [[a0, a1, a2], [a3, a4, a5], [a6, a7, a8]]" by (rule grid3_explicit)
  show ?thesis
    using assms(2) assms(3)
    by (elim in_grid_cases) (simp_all add: b swap_cells_def at_def put_def)
qed

section \<open>The swap rule\<close>

lemma find_append_split:
  "find P (xs @ ys) = (case find P xs of None \<Rightarrow> find P ys | Some x \<Rightarrow> Some x)"
  by (induction xs) auto

lemma find_SomeD: "find P xs = Some x \<Longrightarrow> x \<in> set xs \<and> P x"
  by (induction xs) (auto split: if_splits)

text \<open>
  A scan that records, for every cell whose value lies in \<open>S\<close>, the cell under its value:
  afterwards a value of \<open>S\<close> is mapped to the last cell of the scan holding it.
\<close>

lemma fold_record_last:
  assumes "\<And>c m. f c m = (if val c \<in> S then m(val c \<mapsto> c) else m)"
  shows "fold f cs m v =
     (if v \<in> S
      then (case find (\<lambda>c. val c = v) (rev cs) of Some c \<Rightarrow> Some c | None \<Rightarrow> m v)
      else m v)"
proof (induction cs arbitrary: m)
  case Nil
  show ?case by simp
next
  case (Cons c cs)
  have "fold f (c # cs) m v = fold f cs (f c m) v"
    by simp
  also have "\<dots> =
     (if v \<in> S
      then (case find (\<lambda>c. val c = v) (rev cs) of Some c' \<Rightarrow> Some c' | None \<Rightarrow> f c m v)
      else f c m v)"
    by (rule Cons.IH)
  also have "\<dots> =
     (if v \<in> S
      then (case find (\<lambda>c. val c = v) (rev (c # cs)) of Some c' \<Rightarrow> Some c' | None \<Rightarrow> m v)
      else m v)"
    unfolding assms by (auto simp: find_append_split split: option.splits)
  finally show ?case .
qed

lemma note_position_eq:
  "note_position b c m =
     (if at b (fst c) (snd c) \<in> {1, 2, 3, 4} then m(at b (fst c) (snd c) \<mapsto> c) else m)"
  by (cases c) (simp add: note_position_def)

lemma find_positions_eq:
  "find_positions b v =
     (if v \<in> {1, 2, 3, 4} then find (\<lambda>c. at b (fst c) (snd c) = v) (rev cells) else None)"
proof -
  have "fold (note_position b) cells Map.empty v =
     (if v \<in> {1, 2, 3, 4}
      then (case find (\<lambda>c. at b (fst c) (snd c) = v) (rev cells) of
              Some c \<Rightarrow> Some c | None \<Rightarrow> Map.empty v)
      else Map.empty v)"
    by (rule fold_record_last) (rule note_position_eq)
  then show ?thesis
    by (simp add: find_positions_def split: option.splits)
qed

lemma find_positions_Some:
  assumes "find_positions b v = Some (i, j)"
  shows "in_grid i j \<and> at b i j = v"
proof -
  from assms have "find (\<lambda>c. at b (fst c) (snd c) = v) (rev cells) = Some (i, j)"
    by (simp add: find_positions_eq split: if_splits)
  then have "(i, j) \<in> set (rev cells) \<and> at b (fst (i, j)) (snd (i, j)) = v"
    by (rule find_SomeD)
  then show ?thesis by (simp add: in_grid_cells)
qed

lemma find_positions_cong:
  assumes "\<And>i j. in_grid i j \<Longrightarrow> (at b' i j = v) = (at b i j = v)"
  shows "find_positions b' v = find_positions b v"
proof -
  have "find (\<lambda>c. at b' (fst c) (snd c) = v) (rev cells) = find (\<lambda>c. at b (fst c) (snd c) = v) (rev cells)"
    by (rule find_cong) (auto simp: assms in_grid_cells)
  then show ?thesis by (simp add: find_positions_eq)
qed

lemma swap_if_adjacent_cases:
  assumes "grid3 b"
  obtains "swap_if_adjacent (find_positions b) a c b = b"
  | ia ja ic jc where "swap_if_adjacent (find_positions b) a c b = swap_cells b (ia, ja) (ic, jc)"
      "in_grid ia ja" "in_grid ic jc" "at b ia ja = a" "at b ic jc = c"
proof (cases "find_positions b a")
  case None
  then show ?thesis using that(1) by (simp add: swap_if_adjacent_def)
next
  case (Some pa)
  show ?thesis
  proof (cases "find_positions b c")
    case None
    with Some show ?thesis using that(1) by (simp add: swap_if_adjacent_def split: prod.splits)
  next
    case (Some pc)
    obtain ia ja ic jc where p: "pa = (ia, ja)" "pc = (ic, jc)"
      by (cases pa; cases pc) auto
    show ?thesis
    proof (cases "are_adjacent ia ja ic jc")
      case True
      have "swap_if_adjacent (find_positions b) a c b = swap_cells b (ia, ja) (ic, jc)"
        using \<open>find_positions b a = Some pa\<close> Some p True by (simp add: swap_if_adjacent_def)
      moreover have "in_grid ia ja \<and> at b ia ja = a" "in_grid ic jc \<and> at b ic jc = c"
        using \<open>find_positions b a = Some pa\<close> Some p find_positions_Some by blast+
      ultimately show ?thesis using that(2) by blast
    next
      case False
      then show ?thesis
        using \<open>find_positions b a = Some pa\<close> Some p that(1) by (simp add: swap_if_adjacent_def)
    qed
  qed
qed

lemma grid3_swap_pair:
  assumes "grid3 b"
  shows "grid3 (swap_pair a c b)"
  unfolding swap_pair_def
  by (rule swap_if_adjacent_cases[OF assms, of a c]) (simp_all add: assms grid3_swap_cells)

lemma mset_swap_pair:
  assumes "grid3 b"
  shows "mset (concat (swap_pair a c b)) = mset (concat b)"
  unfolding swap_pair_def
  by (rule swap_if_adjacent_cases[OF assms, of a c]) (simp_all add: assms mset_swap_cells)

lemma at_swap_pair_other:
  assumes "grid3 b" "in_grid k l" "v \<noteq> a" "v \<noteq> c"
  shows "(at (swap_pair a c b) k l = v) = (at b k l = v)"
  unfolding swap_pair_def
proof (rule swap_if_adjacent_cases[OF assms(1), of a c])
  assume "swap_if_adjacent (find_positions b) a c b = b"
  then show "(at (swap_if_adjacent (find_positions b) a c b) k l = v) = (at b k l = v)" by simp
next
  fix ia ja ic jc
  assume "swap_if_adjacent (find_positions b) a c b = swap_cells b (ia, ja) (ic, jc)"
    "in_grid ia ja" "in_grid ic jc" "at b ia ja = a" "at b ic jc = c"
  then show "(at (swap_if_adjacent (find_positions b) a c b) k l = v) = (at b k l = v)"
    using assms by (auto simp: at_swap_cells)
qed

lemma swap_if_adjacent_cong:
  "p a = p' a \<Longrightarrow> p c = p' c \<Longrightarrow> swap_if_adjacent p a c b = swap_if_adjacent p' a c b"
  by (simp add: swap_if_adjacent_def split: option.splits)

lemma apply_special_rules_relocated:
  assumes "grid3 (board s)"
  shows "apply_special_rules s = s\<lparr>board := swap_pair 2 4 (swap_pair 1 3 (board s))\<rparr>"
proof -
  let ?b = "board s"
  let ?b1 = "swap_pair 1 3 ?b"
  have p2: "find_positions ?b1 2 = find_positions ?b 2"
    by (rule find_positions_cong) (simp add: at_swap_pair_other assms)
  have p4: "find_positions ?b1 4 = find_positions ?b 4"
    by (rule find_positions_cong) (simp add: at_swap_pair_other assms)
  have "swap_if_adjacent (find_positions ?b) 2 4 ?b1 = swap_pair 2 4 ?b1"
    unfolding swap_pair_def[of 2 4] by (rule swap_if_adjacent_cong) (simp_all add: p2 p4)
  then show ?thesis
    by (simp add: apply_special_rules_def Let_def swap_pair_def[of 1 3, symmetric])
qed

lemma valid_board_swap_pair: "valid_board b \<Longrightarrow> valid_board (swap_pair a c b)"
  by (simp add: valid_board_def grid3_swap_pair mset_swap_pair)

lemma valid_state_apply_special_rules:
  assumes "valid_state s"
  shows "valid_state (apply_special_rules s)"
proof -
  obtain i j where bp: "blank_pos s = (i, j)" by (cases "blank_pos s")
  from assms bp have g: "grid3 (board s)" and ij: "in_grid i j" and z: "at (board s) i j = 0"
    and vb: "valid_board (board s)"
    by (simp_all add: valid_state_def valid_board_def)
  have "at (swap_pair 2 4 (swap_pair 1 3 (board s))) i j = 0"
    using g ij z by (simp add: at_swap_pair_other grid3_swap_pair)
  moreover have "valid_board (swap_pair 2 4 (swap_pair 1 3 (board s)))"
    using vb by (simp add: valid_board_swap_pair)
  ultimately show ?thesis
    using g bp ij
    by (simp add: apply_special_rules_relocated valid_state_def)
qed

lemma slide_valid:
  assumes "valid_state s" "slide s m = Some n"
  shows "valid_state n"
proof -
  obtain i j where bp: "blank_pos s = (i, j)" by (cases "blank_pos s")
  obtain di dj where m: "m = (di, dj)" by (cases m)
  from assms(1) bp have g: "grid3 (board s)" and ij: "in_grid i j" and z: "at (board s) i j = 0"
    and vb: "valid_board (board s)"
    by (simp_all add: valid_state_def valid_board_def)
  let ?b2 = "put (put (board s) i j (at (board s) (i + di) (j + dj))) (i + di) (j + dj) 0"
  from assms(2) bp m have new: "in_grid (i + di) (j + dj)"
    and n: "n = apply_special_rules \<lparr>board = ?b2, blank_pos = (i + di, j + dj)\<rparr>"
    by (simp_all add: slide_def Let_def in_grid_def split: if_splits)
  have b2: "?b2 = swap_cells (board s) (i, j) (i + di, j + dj)"
    by (simp add: swap_cells_def z)
  have "valid_board ?b2"
    unfolding b2 using vb g ij new
    by (simp add: valid_board_def grid3_swap_cells mset_swap_cells)
  moreover have "at ?b2 (i + di) (j + dj) = 0"
    unfolding b2 using g ij new z by (simp add: at_swap_cells)
  ultimately have "valid_state \<lparr>board = ?b2, blank_pos = (i + di, j + dj)\<rparr>"
    using new by (simp add: valid_state_def)
  then show ?thesis
    unfolding n by (rule valid_state_apply_special_rules)
qed

lemma get_neighbors_slide:
  "n \<in> set (get_neighbors s) \<Longrightarrow> \<exists>m \<in> set moves. slide s m = Some n"
  by (auto simp: get_neighbors_def List.map_filter_def)

text \<open>
  C9: if the board of \<open>s\<close> is a permutation of 0..8 and its cached blank position points
  at the cell holding 0, the same holds of every state returned by \<open>get_neighbors\<close>.
\<close>

theorem get_neighbors_valid:
  assumes "valid_state s"
  shows "list_all valid_state (get_neighbors s)"
  unfolding list_all_iff
proof
  fix n assume "n \<in> set (get_neighbors s)"
  then obtain m where "slide s m = Some n" using get_neighbors_slide by blast
  with assms show "valid_state n" by (rule slide_valid)
qed

lemma valid_example:
  "valid_state \<lparr>board = [[1, 2, 3], [4, 0, 5], [7, 8, 6]], blank_pos = (1, 1)\<rparr>"
  by (simp add: valid_state_def valid_board_def grid3_def in_grid_def at_def)

theorem get_neighbors_valid_witness:
  "valid_state \<lparr>board = [[1, 2, 3], [4, 0, 5], [7, 8, 6]], blank_pos = (1, 1)\<rparr>
   \<and> list_all valid_state (get_neighbors \<lparr>board = [[1, 2, 3], [4, 0, 5], [7, 8, 6]], blank_pos = (1, 1)\<rparr>)"
  using get_neighbors_valid [OF valid_example] valid_example by simp

section \<open>The swap rule against its specification\<close>

lemma scan_order: "[(i, j). i \<leftarrow> [0, 1, 2], j \<leftarrow> [0, 1, 2]] = cells"
  by (simp add: cells_def)

lemma valid_board_distinct:
  assumes "valid_board b"
  shows "distinct (concat b)"
proof -
  from assms have "mset (concat b) = mset [0, 1, 2, 3, 4, 5, 6, 7, 8 :: int]"
    by (simp add: valid_board_def)
  then have "distinct (concat b) = distinct [0, 1, 2, 3, 4, 5, 6, 7, 8 :: int]"
    by (rule mset_eq_imp_distinct_iff)
  then show ?thesis by simp
qed

text \<open>On a board state no two cells hold the same value.\<close>

lemma at_inj:
  assumes "valid_board b" "in_grid i j" "in_grid k l" "at b i j = at b k l"
  shows "i = k \<and> j = l"
proof -
  from assms(1) have "grid3 b" by (simp add: valid_board_def)
  then obtain a0 a1 a2 a3 a4 a5 a6 a7 a8 where
    b: "b = [[a0, a1, a2], [a3, a4, a5], [a6, a7, a8]]" by (rule grid3_explicit)
  have d: "distinct [a0, a1, a2, a3, a4, a5, a6, a7, a8]"
    using valid_board_distinct [OF assms(1)] by (simp add: b)
  show ?thesis
    using assms(2) assms(3) assms(4) d
    by (elim in_grid_cases) (simp_all add: b at_def)
qed

lemma find_rev_unique:
  assumes "\<And>x y. x \<in> set xs \<Longrightarrow> y \<in> set xs \<Longrightarrow> P x \<Longrightarrow> P y \<Longrightarrow> x = y"
  shows "find P (rev xs) = find P xs"
proof (cases "find P xs")
  case None
  then have "find P (rev xs) = None" by (simp add: find_None_iff)
  with None show ?thesis by simp
next
  case (Some c)
  then have c: "c \<in> set xs \<and> P c" by (rule find_SomeD)
  then have "find P (rev xs) \<noteq> None" by (auto simp: find_None_iff)
  then obtain c' where c': "find P (rev xs) = Some c'" by auto
  then have "c' \<in> set (rev xs) \<and> P c'" by (rule find_SomeD)
  with c assms have "c' = c" by simp
  with c' Some show ?thesis by simp
qed

text \<open>The code's \<open>positions\<close> dictionary holds, for each of 1..4, the cell holding it.\<close>

lemma find_positions_cell_holding:
  assumes "valid_board b" "v \<in> {1, 2, 3, 4}"
  shows "find_positions b v = cell_holding b v"
proof -
  have "find (\<lambda>c. at b (fst c) (snd c) = v) (rev cells) = find (\<lambda>c. at b (fst c) (snd c) = v) cells"
  proof (rule find_rev_unique)
    fix x y assume "x \<in> set cells" "y \<in> set cells"
      and "at b (fst x) (snd x) = v" "at b (fst y) (snd y) = v"
    then have "in_grid (fst x) (snd x)" "in_grid (fst y) (snd y)"
      "at b (fst x) (snd x) = at b (fst y) (snd y)"
      by (simp_all add: in_grid_cells)
    with assms(1) have "fst x = fst y \<and> snd x = snd y" by (rule at_inj)
    then show "x = y" by (simp add: prod_eq_iff)
  qed
  moreover have "cell_holding b v = find (\<lambda>c. at b (fst c) (snd c) = v) cells"
    unfolding cell_holding_def scan_order by (rule refl)
  moreover have "find_positions b v = find (\<lambda>c. at b (fst c) (snd c) = v) (rev cells)"
    using assms(2) by (simp only: find_positions_eq if_True)
  ultimately show ?thesis by simp
qed

text \<open>The code's adjacency test is Manhattan distance one.\<close>

lemma are_adjacent_orthogonal:
  "are_adjacent i1 j1 i2 j2 = orthogonally_adjacent (i1, j1) (i2, j2)"
  unfolding are_adjacent_def orthogonally_adjacent_def by auto

text \<open>The code's tuple assignment exchanges the contents of the two cells.\<close>

lemma swap_cells_exchange:
  assumes "grid3 b" "in_grid i1 j1" "in_grid i3 j3"
  shows "swap_cells b (i1, j1) (i3, j3) = exchange_contents b (i1, j1) (i3, j3)"
proof -
  from assms(1) obtain a0 a1 a2 a3 a4 a5 a6 a7 a8 where
    b: "b = [[a0, a1, a2], [a3, a4, a5], [a6, a7, a8]]" by (rule grid3_explicit)
  show ?thesis
    using assms(2) assms(3)
    by (elim in_grid_cases) (simp_all add: b swap_cells_def exchange_contents_def at_def put_def)
qed

lemma swap_pair_step:
  assumes "valid_board b" "x \<in> {1, 2, 3, 4}" "y \<in> {1, 2, 3, 4}"
  shows "swap_pair x y b = swap_step x y b"
proof -
  from assms(1) have g: "grid3 b" by (simp add: valid_board_def)
  have px: "find_positions b x = cell_holding b x" and py: "find_positions b y = cell_holding b y"
    using assms by (simp_all only: find_positions_cell_holding)
  show ?thesis
  proof (cases "cell_holding b x")
    case None
    then show ?thesis by (simp add: swap_pair_def swap_if_adjacent_def swap_step_def px)
  next
    case (Some p)
    note hx = this
    show ?thesis
    proof (cases "cell_holding b y")
      case None
      with hx show ?thesis
        by (simp add: swap_pair_def swap_if_adjacent_def swap_step_def px py split: prod.splits)
    next
      case (Some q)
      obtain ia ja ic jc where p: "p = (ia, ja)" and q: "q = (ic, jc)"
        by (cases p; cases q) auto
      have "in_grid ia ja" "in_grid ic jc"
        using find_positions_Some [of b x ia ja] find_positions_Some [of b y ic jc] hx Some px py p q
        by simp_all
      then have "swap_cells b (ia, ja) (ic, jc) = exchange_contents b (ia, ja) (ic, jc)"
        using g by (intro swap_cells_exchange)
      with hx Some p q show ?thesis
        by (simp add: swap_pair_def swap_if_adjacent_def swap_step_def px py are_adjacent_orthogonal)
    qed
  qed
qed

text \<open>
  C4: on every board state the swap rule of the code (which locates the tiles once, then
  tests adjacency with \<open>_are_adjacent\<close> and swaps by tuple assignment) gives exactly the
  sequenced procedure: if the cells holding 1 and 3 are orthogonally adjacent their
  contents are swapped; then, on the grid this leaves, if the cells holding 2 and 4 are
  orthogonally adjacent their contents are swapped. The recorded blank position is
  untouched.
\<close>

theorem swap_rule_is_sequenced:
  assumes "valid_board (board s)"
  shows "board (apply_special_rules s) = swap_rule_sequenced (board s)
         \<and> blank_pos (apply_special_rules s) = blank_pos s"
proof -
  from assms have g: "grid3 (board s)" by (simp add: valid_board_def)
  have first: "swap_pair 1 3 (board s) = swap_step 1 3 (board s)"
    using assms by (rule swap_pair_step) simp_all
  have "valid_board (swap_pair 1 3 (board s))"
    using assms by (rule valid_board_swap_pair)
  then have "swap_pair 2 4 (swap_pair 1 3 (board s)) = swap_step 2 4 (swap_pair 1 3 (board s))"
    by (rule swap_pair_step) simp_all
  with first show ?thesis
    by (simp add: apply_special_rules_relocated [OF g] swap_rule_sequenced_def)
qed

lemma both_swaps_sequenced:
  "swap_rule_sequenced [[1, 3, 0], [2, 4, 5], [6, 7, 8]] = [[3, 1, 0], [4, 2, 5], [6, 7, 8]]"
  by code_simp

lemma diagonal_not_swapped:
  "swap_rule_sequenced [[1, 2, 0], [4, 3, 5], [6, 7, 8]] = [[1, 2, 0], [4, 3, 5], [6, 7, 8]]"
  by code_simp

text \<open>
  A board on which both swaps happen: 1 and 3 share the top row, 2 and 4 the middle row.
  The code turns [[1,3,0],[2,4,5],[6,7,8]] into [[3,1,0],[4,2,5],[6,7,8]].
\<close>

theorem swap_rule_is_sequenced_witness:
  "valid_board (board \<lparr>board = [[1, 3, 0], [2, 4, 5], [6, 7, 8]], blank_pos = (0, 2)\<rparr>)
   \<and> board (apply_special_rules \<lparr>board = [[1, 3, 0], [2, 4, 5], [6, 7, 8]], blank_pos = (0, 2)\<rparr>)
       = [[3, 1, 0], [4, 2, 5], [6, 7, 8]]
   \<and> swap_rule_sequenced [[1, 3, 0], [2, 4, 5], [6, 7, 8]] = [[3, 1, 0], [4, 2, 5], [6, 7, 8]]
   \<and> blank_pos (apply_special_rules \<lparr>board = [[1, 3, 0], [2, 4, 5], [6, 7, 8]], blank_pos = (0, 2)\<rparr>) = (0, 2)"
proof -
  have v: "valid_board (board \<lparr>board = [[1, 3, 0], [2, 4, 5], [6, 7, 8]], blank_pos = (0, 2)\<rparr>)"
    by (simp add: valid_board_def grid3_def)
  from swap_rule_is_sequenced [OF v] v both_swaps_sequenced show ?thesis by simp
qed
section \<open>Search from a goal state\<close>

lemma is_goal_iff: "is_goal s gs \<longleftrightarrow> board s \<in> set gs"
  by (induction gs) auto

text \<open>
  C8: when the grid of the initial state is one of the four goal grids, \<open>search\<close> on a
  freshly constructed engine (with any heuristic) returns the one-element path holding
  that state, and the engine's expansion counter is zero afterwards.
\<close>

theorem search_on_goal:
  assumes "board s \<in> set (goal_states new_game)"
  shows "\<exists>eng. search (new_AStar new_game h) s = Some (Returned (Some [s]), eng)
               \<and> nodes_expanded eng = 0"
proof -
  let ?e = "new_AStar new_game h"
  let ?v = "\<lparr>open_set = heappush [] (h s (goal_states new_game), 0, s), closed_set = {},
             g_values = [board s \<mapsto> 0], parent = [board s \<mapsto> None], counter = 0, self = ?e\<rparr>"
  have goal: "is_goal s (goal_states (game ?e))"
    using assms by (simp add: is_goal_iff new_AStar_def)
  have body: "loop_body ?v = Goal s [board s \<mapsto> None] (?e\<lparr>max_frontier_size := 1\<rparr>)"
    using goal by (simp add: loop_body_def track_peak_def heappush_def new_AStar_def)
  have path: "reconstruct_path [board s \<mapsto> None] s = Some (Returned (Some [s]))"
    by (simp add: reconstruct_path_def reconstruct_loop.simps)
  have "search_loop ?v = Some (Returned (Some [s]), ?e\<lparr>max_frontier_size := 1\<rparr>)"
    by (subst search_loop.simps) (simp add: body path)
  then have "search ?e s = Some (Returned (Some [s]), ?e\<lparr>max_frontier_size := 1\<rparr>)"
    by (simp add: search_def is_solvable_def new_AStar_def)
  moreover have "nodes_expanded (?e\<lparr>max_frontier_size := 1\<rparr>) = 0"
    by (simp add: new_AStar_def)
  ultimately show ?thesis by blast
qed

text \<open>The third goal grid as the initial state, with the Manhattan heuristic.\<close>

theorem search_on_goal_witness:
  "board \<lparr>board = [[0, 1, 2], [3, 4, 5], [6, 7, 8]], blank_pos = (0, 0)\<rparr> \<in> set (goal_states new_game)
   \<and> (\<exists>eng. search (new_AStar new_game manhattan_distance)
               \<lparr>board = [[0, 1, 2], [3, 4, 5], [6, 7, 8]], blank_pos = (0, 0)\<rparr>
             = Some (Returned (Some [\<lparr>board = [[0, 1, 2], [3, 4, 5], [6, 7, 8]], blank_pos = (0, 0)\<rparr>]), eng)
            \<and> nodes_expanded eng = 0)"
proof -
  have g: "board \<lparr>board = [[0, 1, 2], [3, 4, 5], [6, 7, 8]], blank_pos = (0, 0)\<rparr> \<in> set (goal_states new_game)"
    by (simp add: new_game_def)
  from search_on_goal [OF g] g show ?thesis by blast
qed

section \<open>Heuristics against the true cost\<close>

text \<open>
  C3 at the state [[3,2,0],[1,4,5],[6,7,8]]: the Manhattan heuristic returns 4 and the
  misplaced-tiles heuristic returns 3, while two moves reach the goal [[0,1,2],[3,4,5],[6,7,8]]
  (the first slide brings 1 and 3 next to each other, and the swap rule exchanges them).
  Both estimates exceed the true cost 2. The state is a permutation board and is itself
  produced by a move, from [[1,0,4],[3,2,5],[6,7,8]].
\<close>

theorem heuristics_overestimate:
  "manhattan_distance \<lparr>board = [[3, 2, 0], [1, 4, 5], [6, 7, 8]], blank_pos = (0, 2)\<rparr>
      (goal_states new_game) = Fin 4
   \<and> misplaced_tiles \<lparr>board = [[3, 2, 0], [1, 4, 5], [6, 7, 8]], blank_pos = (0, 2)\<rparr>
      (goal_states new_game) = Fin 3
   \<and> is_path [\<lparr>board = [[3, 2, 0], [1, 4, 5], [6, 7, 8]], blank_pos = (0, 2)\<rparr>,
              \<lparr>board = [[1, 0, 2], [3, 4, 5], [6, 7, 8]], blank_pos = (0, 1)\<rparr>,
              \<lparr>board = [[0, 1, 2], [3, 4, 5], [6, 7, 8]], blank_pos = (0, 0)\<rparr>]
   \<and> is_goal \<lparr>board = [[0, 1, 2], [3, 4, 5], [6, 7, 8]], blank_pos = (0, 0)\<rparr>
        (goal_states new_game)
   \<and> is_path [\<lparr>board = [[1, 0, 4], [3, 2, 5], [6, 7, 8]], blank_pos = (0, 1)\<rparr>,
              \<lparr>board = [[3, 2, 0], [1, 4, 5], [6, 7, 8]], blank_pos = (0, 2)\<rparr>]"
  by code_simp

section \<open>Length of the returned path\<close>

text \<open>
  C1 at the initial state [[0,3,4],[2,5,1],[7,8,6]] with the Manhattan heuristic:
  \<open>search\<close> on a fresh engine returns a path of 13 states (12 moves), while the second
  list below is a path of 11 states (10 moves) from the same state to the first goal.
\<close>

theorem search_returns_longer_path:
  "map_option fst (search (new_AStar new_game manhattan_distance)
      \<lparr>board = [[0, 3, 4], [2, 5, 1], [7, 8, 6]], blank_pos = (0, 0)\<rparr>)
   = Some (Returned (Some
      [\<lparr>board = [[0, 3, 4], [2, 5, 1], [7, 8, 6]], blank_pos = (0, 0)\<rparr>,
       \<lparr>board = [[2, 3, 4], [0, 5, 1], [7, 8, 6]], blank_pos = (1, 0)\<rparr>,
       \<lparr>board = [[2, 3, 4], [5, 0, 1], [7, 8, 6]], blank_pos = (1, 1)\<rparr>,
       \<lparr>board = [[2, 0, 4], [5, 1, 3], [7, 8, 6]], blank_pos = (0, 1)\<rparr>,
       \<lparr>board = [[4, 2, 0], [5, 3, 1], [7, 8, 6]], blank_pos = (0, 2)\<rparr>,
       \<lparr>board = [[4, 0, 2], [5, 1, 3], [7, 8, 6]], blank_pos = (0, 1)\<rparr>,
       \<lparr>board = [[4, 1, 2], [5, 0, 3], [7, 8, 6]], blank_pos = (1, 1)\<rparr>,
       \<lparr>board = [[4, 1, 2], [0, 5, 3], [7, 8, 6]], blank_pos = (1, 0)\<rparr>,
       \<lparr>board = [[0, 1, 2], [4, 5, 3], [7, 8, 6]], blank_pos = (0, 0)\<rparr>,
       \<lparr>board = [[1, 0, 2], [4, 5, 3], [7, 8, 6]], blank_pos = (0, 1)\<rparr>,
       \<lparr>board = [[1, 2, 0], [4, 5, 3], [7, 8, 6]], blank_pos = (0, 2)\<rparr>,
       \<lparr>board = [[1, 2, 3], [4, 5, 0], [7, 8, 6]], blank_pos = (1, 2)\<rparr>,
       \<lparr>board = [[1, 2, 3], [4, 5, 6], [7, 8, 0]], blank_pos = (2, 2)\<rparr>]))
   \<and> is_path
      [\<lparr>board = [[0, 3, 4], [2, 5, 1], [7, 8, 6]], blank_pos = (0, 0)\<rparr>,
       \<lparr>board = [[3, 0, 4], [2, 5, 1], [7, 8, 6]], blank_pos = (0, 1)\<rparr>,
       \<lparr>board = [[3, 4, 0], [2, 5, 1], [7, 8, 6]], blank_pos = (0, 2)\<rparr>,
       \<lparr>board = [[3, 4, 1], [2, 5, 0], [7, 8, 6]], blank_pos = (1, 2)\<rparr>,
       \<lparr>board = [[3, 4, 1], [2, 0, 5], [7, 8, 6]], blank_pos = (1, 1)\<rparr>,
       \<lparr>board = [[3, 0, 1], [4, 2, 5], [7, 8, 6]], blank_pos = (0, 1)\<rparr>,
       \<lparr>board = [[0, 1, 3], [2, 4, 5], [7, 8, 6]], blank_pos = (0, 0)\<rparr>,
       \<lparr>board = [[1, 0, 3], [4, 2, 5], [7, 8, 6]], blank_pos = (0, 1)\<rparr>,
       \<lparr>board = [[1, 2, 3], [4, 0, 5], [7, 8, 6]], blank_pos = (1, 1)\<rparr>,
       \<lparr>board = [[1, 2, 3], [4, 5, 0], [7, 8, 6]], blank_pos = (1, 2)\<rparr>,
       \<lparr>board = [[1, 2, 3], [4, 5, 6], [7, 8, 0]], blank_pos = (2, 2)\<rparr>]
   \<and> is_goal \<lparr>board = [[1, 2, 3], [4, 5, 6], [7, 8, 0]], blank_pos = (2, 2)\<rparr>
        (goal_states new_game)"
  by code_simp

section \<open>Manhattan distance against misplaced tiles\<close>

lemma note_goal_position_eq:
  "note_goal_position g c m =
     (if at g (fst c) (snd c) \<in> - {0} then m(at g (fst c) (snd c) \<mapsto> c) else m)"
  by (cases c) (simp add: note_goal_position_def)

lemma goal_positions_eq:
  "goal_positions g v =
     (if v \<noteq> 0 then find (\<lambda>c. at g (fst c) (snd c) = v) (rev cells) else None)"
proof -
  have "fold (note_goal_position g) cells Map.empty v =
     (if v \<in> - {0}
      then (case find (\<lambda>c. at g (fst c) (snd c) = v) (rev cells) of
              Some c \<Rightarrow> Some c | None \<Rightarrow> Map.empty v)
      else Map.empty v)"
    by (rule fold_record_last) (rule note_goal_position_eq)
  then show ?thesis
    by (simp add: goal_positions_def split: option.splits)
qed

lemma goal_positions_Some:
  assumes "goal_positions g v = Some (gi, gj)"
  shows "in_grid gi gj \<and> at g gi gj = v"
proof -
  from assms have "find (\<lambda>c. at g (fst c) (snd c) = v) (rev cells) = Some (gi, gj)"
    by (simp add: goal_positions_eq split: if_splits)
  then have "(gi, gj) \<in> set (rev cells) \<and> at g (fst (gi, gj)) (snd (gi, gj)) = v"
    by (rule find_SomeD)
  then show ?thesis by (simp add: in_grid_cells)
qed

lemma goal_positions_present:
  assumes "v \<noteq> 0" "in_grid k l" "at g k l = v"
  shows "goal_positions g v \<noteq> None"
proof -
  have "\<exists>c. c \<in> set (rev cells) \<and> at g (fst c) (snd c) = v"
    using assms(2,3) by (auto simp: in_grid_cells)
  then have "find (\<lambda>c. at g (fst c) (snd c) = v) (rev cells) \<noteq> None"
    by (simp add: find_None_iff)
  with assms(1) show ?thesis by (simp add: goal_positions_eq)
qed

text \<open>The distance loop adds one non-negative term per cell.\<close>

lemma add_tile_distance_split:
  "add_tile_distance s gp c d = d + add_tile_distance s gp c 0"
  by (cases c) (simp add: add_tile_distance_def split: option.splits)

lemma fold_add_tile_distance:
  "fold (add_tile_distance s gp) cs d = d + sum_list (map (\<lambda>c. add_tile_distance s gp c 0) cs)"
proof (induction cs arbitrary: d)
  case Nil
  show ?case by simp
next
  case (Cons c cs)
  have "fold (add_tile_distance s gp) (c # cs) d
          = add_tile_distance s gp c d + sum_list (map (\<lambda>c. add_tile_distance s gp c 0) cs)"
    by (simp add: Cons.IH)
  then show ?case
    by (subst (asm) add_tile_distance_split) simp
qed

lemma sum_list_filter_ones:
  "sum_list (map (\<lambda>c. 1::int) (filter P cs)) = sum_list (map (\<lambda>c. if P c then 1 else 0) cs)"
  by (induction cs) simp_all

lemma tile_misplaced_le_distance:
  assumes "covers g (board s)" "in_grid i j"
  shows "(if at (board s) i j \<noteq> 0 \<and> at (board s) i j \<noteq> at g i j then 1 else 0)
           \<le> add_tile_distance s (goal_positions g) (i, j) 0"
proof (cases "at (board s) i j \<noteq> 0 \<and> at (board s) i j \<noteq> at g i j")
  case True
  then obtain k l where "in_grid k l" "at g k l = at (board s) i j"
    using assms unfolding covers_def by blast
  with True have "goal_positions g (at (board s) i j) \<noteq> None"
    using goal_positions_present by blast
  then obtain gi gj where gp: "goal_positions g (at (board s) i j) = Some (gi, gj)"
    by auto
  then have "at g gi gj = at (board s) i j"
    using goal_positions_Some by blast
  with True have "gi \<noteq> i \<or> gj \<noteq> j" by auto
  then have "1 \<le> \<bar>i - gi\<bar> + \<bar>j - gj\<bar>" by linarith
  with True gp show ?thesis by (simp add: add_tile_distance_def)
next
  case False
  have "0 \<le> add_tile_distance s (goal_positions g) (i, j) 0"
    by (simp add: add_tile_distance_def split: option.splits)
  with False show ?thesis by auto
qed

lemma goal_misplaced_le_distance:
  assumes "covers g (board s)"
  shows "goal_misplaced s g \<le> goal_distance s g"
proof -
  have "sum_list (map (\<lambda>c. if (case c of (i, j) \<Rightarrow> at (board s) i j \<noteq> 0 \<and> at (board s) i j \<noteq> at g i j)
                             then 1 else 0) cells)
          \<le> sum_list (map (\<lambda>c. add_tile_distance s (goal_positions g) c 0) cells)"
  proof (rule sum_list_mono)
    fix c assume "c \<in> set cells"
    then have "in_grid (fst c) (snd c)" by (simp add: in_grid_cells)
    from tile_misplaced_le_distance [OF assms this]
    show "(if (case c of (i, j) \<Rightarrow> at (board s) i j \<noteq> 0 \<and> at (board s) i j \<noteq> at g i j) then 1 else 0)
            \<le> add_tile_distance s (goal_positions g) c 0"
      by (cases c) simp
  qed
  then show ?thesis
    by (simp add: goal_misplaced_def goal_distance_def sum_list_filter_ones fold_add_tile_distance)
qed

lemma num_min_mono:
  assumes "num_le a' a" "m \<le> d"
  shows "num_le (num_min a' (Fin m)) (num_min a (Fin d))"
  using assms by (cases a'; cases a) (auto simp: num_le_def num_min_def)

lemma fold_min_mono:
  assumes "\<And>g. g \<in> set goals \<Longrightarrow> goal_misplaced s g \<le> goal_distance s g" "num_le a' a"
  shows "num_le (fold (min_with_misplaced s) goals a') (fold (min_with_distance s) goals a)"
  using assms
proof (induction goals arbitrary: a' a)
  case Nil
  then show ?case by simp
next
  case (Cons g goals)
  have "num_le (min_with_misplaced s g a') (min_with_distance s g a)"
    unfolding min_with_misplaced_def min_with_distance_def
    using Cons.prems by (intro num_min_mono) simp_all
  with Cons.IH [of "min_with_misplaced s g a'" "min_with_distance s g a"] Cons.prems(1)
  show ?case by simp
qed

lemma cells_of_grid:
  assumes "grid3 b"
  shows "set (concat b) = {v. \<exists>i j. in_grid i j \<and> at b i j = v}"
proof -
  from assms obtain a0 a1 a2 a3 a4 a5 a6 a7 a8 where
    b: "b = [[a0, a1, a2], [a3, a4, a5], [a6, a7, a8]]" by (rule grid3_explicit)
  have "{v. \<exists>i j. in_grid i j \<and> at b i j = v} = (\<lambda>c. at b (fst c) (snd c)) ` set cells"
    by (force simp: in_grid_cells image_iff)
  also have "\<dots> = set (concat b)"
    by (simp add: cells_def b at_def)
  finally show ?thesis by simp
qed

lemma valid_boards_cover:
  assumes "valid_board g" "valid_board b"
  shows "covers g b"
proof -
  from assms have "set (concat g) = set (concat b)"
    unfolding valid_board_def by (metis set_mset_mset)
  moreover from assms have "grid3 g" "grid3 b" by (simp_all add: valid_board_def)
  ultimately have "{v. \<exists>i j. in_grid i j \<and> at g i j = v} = {v. \<exists>i j. in_grid i j \<and> at b i j = v}"
    by (simp only: cells_of_grid)
  then show ?thesis unfolding covers_def by blast
qed

text \<open>
  C6: for every board state \<open>s\<close> and every set of goal boards, the Manhattan heuristic is
  at least the misplaced-tiles heuristic (both being the minimum over the goals of the
  per-goal estimate). Boards are permutations of 0..8, on both sides.
\<close>

theorem manhattan_ge_misplaced:
  assumes "valid_board (board s)" "list_all valid_board goals"
  shows "num_le (misplaced_tiles s goals) (manhattan_distance s goals)"
  unfolding misplaced_tiles_def manhattan_distance_def
proof (rule fold_min_mono)
  fix g assume "g \<in> set goals"
  with assms(2) have "valid_board g" by (simp add: list_all_iff)
  then have "covers g (board s)" using assms(1) by (rule valid_boards_cover)
  then show "goal_misplaced s g \<le> goal_distance s g" by (rule goal_misplaced_le_distance)
next
  show "num_le PInf PInf" by (simp add: num_le_def)
qed

lemma valid_goal_states: "list_all valid_board (goal_states new_game)"
  by (simp add: new_game_def valid_board_def grid3_def)

theorem manhattan_ge_misplaced_witness:
  "valid_board (board \<lparr>board = [[3, 2, 0], [1, 4, 5], [6, 7, 8]], blank_pos = (0, 2)\<rparr>)
   \<and> list_all valid_board (goal_states new_game)
   \<and> num_le (misplaced_tiles \<lparr>board = [[3, 2, 0], [1, 4, 5], [6, 7, 8]], blank_pos = (0, 2)\<rparr> (goal_states new_game))
            (manhattan_distance \<lparr>board = [[3, 2, 0], [1, 4, 5], [6, 7, 8]], blank_pos = (0, 2)\<rparr> (goal_states new_game))"
proof -
  have v: "valid_board (board \<lparr>board = [[3, 2, 0], [1, 4, 5], [6, 7, 8]], blank_pos = (0, 2)\<rparr>)"
    by (simp add: valid_board_def grid3_def)
  from manhattan_ge_misplaced [OF v valid_goal_states] v valid_goal_states
  show ?thesis by blast
qed

section \<open>Constructing a state from a board\<close>

text \<open>
  A state built from a permutation board without a blank position is a valid state: the
  constructor finds the cell holding 0.
\<close>

lemma new_State_valid:
  assumes "valid_board b"
  shows "\<exists>s. new_State b None = Inr s \<and> board s = b \<and> valid_state s"
proof -
  from assms have g: "grid3 b" and "set (concat b) = set [0, 1, 2, 3, 4, 5, 6, 7, 8]"
    unfolding valid_board_def by (simp, metis set_mset_mset)
  then have "0 \<in> {v. \<exists>i j. in_grid i j \<and> at b i j = v}"
    by (simp only: cells_of_grid [symmetric]) simp
  then have "\<exists>c. c \<in> set cells \<and> at b (fst c) (snd c) = 0"
    by (auto simp: in_grid_cells)
  then obtain c where c: "find (\<lambda>c. at b (fst c) (snd c) = 0) cells = Some c"
    by (cases "find (\<lambda>c. at b (fst c) (snd c) = 0) cells") (auto simp: find_None_iff)
  then have "c \<in> set cells \<and> at b (fst c) (snd c) = 0"
    by (rule find_SomeD)
  then have "in_grid (fst c) (snd c)" "at b (fst c) (snd c) = 0"
    by (simp_all add: in_grid_cells)
  with assms c show ?thesis
    by (simp add: new_State_def find_blank_def valid_state_def split_beta)
qed
section \<open>Runs on an engine that has searched before\<close>

lemma consider_neighbor_carry:
  "consider_neighbor cur g nb (carry_vars n m t v) = carry_vars n m t (consider_neighbor cur g nb v)"
  by (simp add: consider_neighbor_def carry_vars_def carry_def Let_def)

lemma fold_consider_neighbor_carry:
  "fold (consider_neighbor cur g) nbs (carry_vars n m t v)
     = carry_vars n m t (fold (consider_neighbor cur g) nbs v)"
  by (induction nbs arbitrary: v) (simp_all add: consider_neighbor_carry)

text \<open>One pass of the loop, once the smallest frontier entry is known.\<close>

lemma loop_body_pop:
  assumes "open_set v = e # es" "heappop (e # es) = ((f, c, current), rest)"
  shows "loop_body v =
     (if is_goal current (goal_states (game (self v))) then Goal current (parent v) (track_peak v)
      else if board current \<in> closed_set v then Continue (v\<lparr>open_set := rest, self := track_peak v\<rparr>)
      else (case g_values v (board current) of
              None \<Rightarrow> Stop (Raised KeyError) (count_expansion (track_peak v))
            | Some current_g \<Rightarrow>
                Continue (fold (consider_neighbor current current_g) (get_neighbors current)
                  (v\<lparr>open_set := rest,
                     closed_set := insert (board current) (closed_set v),
                     self := count_expansion (track_peak v)\<rparr>))))"
  using assms
  by (simp add: loop_body_def Let_def track_peak_def del: heappop.simps split: option.splits)

lemma heappop_cases:
  obtains f c current rest where "heappop (e # es) = ((f, c, current), rest)"
  by (metis prod_cases3 surj_pair)

lemma track_peak_carry:
  "track_peak (carry_vars n m t v) = carry n m t (track_peak v)"
  by (simp add: track_peak_def carry_vars_def carry_def max.assoc)

lemma count_expansion_carry:
  "count_expansion (carry n m t e) = carry n m t (count_expansion e)"
  by (simp add: count_expansion_def carry_def)

lemma carry_vars_fields:
  "open_set (carry_vars n m t v) = open_set v"
  "closed_set (carry_vars n m t v) = closed_set v"
  "g_values (carry_vars n m t v) = g_values v"
  "parent (carry_vars n m t v) = parent v"
  "counter (carry_vars n m t v) = counter v"
  "self (carry_vars n m t v) = carry n m t (self v)"
  "game (carry n m t e) = game e"
  "heuristic_func (carry n m t e) = heuristic_func e"
  by (simp_all add: carry_vars_def carry_def)

lemma carry_vars_set:
  "(carry_vars n m t v)\<lparr>open_set := os, self := carry n m t e\<rparr>
     = carry_vars n m t (v\<lparr>open_set := os, self := e\<rparr>)"
  "(carry_vars n m t v)\<lparr>open_set := os, closed_set := cs, self := carry n m t e\<rparr>
     = carry_vars n m t (v\<lparr>open_set := os, closed_set := cs, self := e\<rparr>)"
  by (simp_all add: carry_vars_def)

lemma loop_body_carry:
  "loop_body (carry_vars n m t v) = carry_pass n m t (loop_body v)"
proof (cases "open_set v")
  case Nil
  then show ?thesis by (simp add: loop_body_def carry_vars_fields)
next
  case (Cons e es)
  obtain f c current rest where pop: "heappop (e # es) = ((f, c, current), rest)"
    by (rule heappop_cases)
  have os: "open_set (carry_vars n m t v) = e # es"
    using Cons by (simp add: carry_vars_fields)
  show ?thesis
    unfolding loop_body_pop [OF os pop] loop_body_pop [OF Cons pop]
    by (simp add: carry_vars_fields track_peak_carry count_expansion_carry carry_vars_set
          fold_consider_neighbor_carry split: option.splits)
qed

lemma search_loop_carry_forward:
  assumes "search_loop v = Some r"
  shows "search_loop (carry_vars n m t v) = Some (fst r, carry n m t (snd r))"
proof (rule search_loop.raw_induct
    [where P = "\<lambda>v r. search_loop (carry_vars n m t v) = Some (fst r, carry n m t (snd r))",
     OF _ assms], goal_cases)
  case (1 loop v r)
  show ?case
  proof (cases "loop_body v")
    case (Stop out e)
    with 1(2) show ?thesis
      by (subst search_loop.simps) (auto simp: loop_body_carry)
  next
    case (Goal current par e)
    with 1(2) show ?thesis
      by (subst search_loop.simps) (auto simp: loop_body_carry)
  next
    case (Continue v')
    with 1(2) have "loop v' = Some r" by simp
    then have "search_loop (carry_vars n m t v') = Some (fst r, carry n m t (snd r))"
      by (rule 1(1))
    with Continue show ?thesis
      by (subst search_loop.simps) (simp add: loop_body_carry)
  qed
qed

lemma search_loop_carry_backward:
  assumes "search_loop w = Some r"
  shows "\<forall>v. w = carry_vars n m t v \<longrightarrow>
           (\<exists>e. search_loop v = Some (fst r, e) \<and> snd r = carry n m t e)"
proof (rule search_loop.raw_induct
    [where P = "\<lambda>w r. \<forall>v. w = carry_vars n m t v \<longrightarrow>
                  (\<exists>e. search_loop v = Some (fst r, e) \<and> snd r = carry n m t e)",
     OF _ assms], goal_cases)
  case (1 loop w r)
  show ?case
  proof (intro allI impI)
    fix v assume w: "w = carry_vars n m t v"
    have body: "loop_body w = carry_pass n m t (loop_body v)"
      unfolding w by (rule loop_body_carry)
    show "\<exists>e. search_loop v = Some (fst r, e) \<and> snd r = carry n m t e"
    proof (cases "loop_body v")
      case (Stop out e)
      with 1(2) body show ?thesis
        by (subst search_loop.simps) auto
    next
      case (Goal current par e)
      with 1(2) body show ?thesis
        by (subst search_loop.simps) auto
    next
      case (Continue v')
      with 1(2) body have "loop (carry_vars n m t v') = Some r" by simp
      from 1(1) [OF this] have "\<exists>e. search_loop v' = Some (fst r, e) \<and> snd r = carry n m t e"
        by blast
      with Continue show ?thesis
        by (subst search_loop.simps) simp
    qed
  qed
qed

lemma search_loop_carry:
  "search_loop (carry_vars n m t v) = map_option (\<lambda>r. (fst r, carry n m t (snd r))) (search_loop v)"
proof (cases "search_loop v")
  case (Some r)
  then show ?thesis by (simp add: search_loop_carry_forward)
next
  case None
  have "search_loop (carry_vars n m t v) = None"
  proof (rule ccontr)
    assume "search_loop (carry_vars n m t v) \<noteq> None"
    then obtain r where "search_loop (carry_vars n m t v) = Some r" by auto
    from search_loop_carry_backward [OF this, of n m t] None show False by auto
  qed
  with None show ?thesis by simp
qed

lemma search_carry:
  "search (carry n m t e) s = map_option (\<lambda>r. (fst r, carry n m t (snd r))) (search e s)"
proof -
  let ?v = "\<lparr>open_set = heappush [] (heuristic_func e s (goal_states (game e)), 0, s), closed_set = {},
             g_values = [board s \<mapsto> 0], parent = [board s \<mapsto> None], counter = 0, self = e\<rparr>"
  have "search (carry n m t e) s = search_loop (carry_vars n m t ?v)"
    by (simp add: search_def is_solvable_def carry_vars_def carry_def)
  also have "\<dots> = map_option (\<lambda>r. (fst r, carry n m t (snd r))) (search_loop ?v)"
    by (rule search_loop_carry)
  also have "search_loop ?v = search e s"
    by (simp add: search_def is_solvable_def)
  finally show ?thesis .
qed

lemma engine_as_carry:
  "e = carry (nodes_expanded e) (max_frontier_size e) (search_tree e)
         (new_AStar (game e) (heuristic_func e))"
  by (simp add: carry_def new_AStar_def)

text \<open>
  C10: the instrumentation fields are never reset inside \<open>search\<close>. On an engine object
  that has been used before, a call ends with the expansion counter increased by the
  expansions of this run, the peak being the maximum of the earlier peak and this run's
  peak, and the log extended by this run's log, where "this run" is what a freshly
  constructed engine with the same game and heuristic reports from the same state.
\<close>

theorem search_accumulates:
  assumes "valid_state s"
    and "search (new_AStar (game e) (heuristic_func e)) s = Some (out, r)"
  shows "\<exists>e'. search e s = Some (out, e')
     \<and> nodes_expanded e' = nodes_expanded e + nodes_expanded r
     \<and> max_frontier_size e' = max (max_frontier_size e) (max_frontier_size r)
     \<and> search_tree e' = search_tree e @ search_tree r"
proof -
  let ?c = "carry (nodes_expanded e) (max_frontier_size e) (search_tree e)"
  have "search e s = search (?c (new_AStar (game e) (heuristic_func e))) s"
    using engine_as_carry [of e] by simp
  also have "\<dots> = Some (out, ?c r)"
    using assms(2) by (simp add: search_carry)
  finally have "search e s = Some (out, ?c r)" .
  then show ?thesis by (simp add: carry_def)
qed

lemma one_move_state_valid:
  "valid_state \<lparr>board = [[1, 2, 3], [4, 5, 0], [7, 8, 6]], blank_pos = (1, 2)\<rparr>"
  by (simp add: valid_state_def valid_board_def grid3_def in_grid_def at_def)

lemma one_move_search:
  "map_option report (search (new_AStar new_game manhattan_distance)
      \<lparr>board = [[1, 2, 3], [4, 5, 0], [7, 8, 6]], blank_pos = (1, 2)\<rparr>)
   = Some (Returned (Some [\<lparr>board = [[1, 2, 3], [4, 5, 0], [7, 8, 6]], blank_pos = (1, 2)\<rparr>,
                            \<lparr>board = [[1, 2, 3], [4, 5, 6], [7, 8, 0]], blank_pos = (2, 2)\<rparr>]), 1, 3)"
  by code_simp

text \<open>
  An engine whose counters hold 24 expansions and a peak of 25 from an earlier run, called
  on a state one move from a goal: the run alone has 1 expansion and peak 3, and the
  engine ends with 25 and 25.
\<close>

theorem search_accumulates_witness:
  "valid_state \<lparr>board = [[1, 2, 3], [4, 5, 0], [7, 8, 6]], blank_pos = (1, 2)\<rparr>
   \<and> (\<exists>out r e'.
         search (new_AStar new_game manhattan_distance)
           \<lparr>board = [[1, 2, 3], [4, 5, 0], [7, 8, 6]], blank_pos = (1, 2)\<rparr> = Some (out, r)
       \<and> nodes_expanded r = 1 \<and> max_frontier_size r = 3
       \<and> search ((new_AStar new_game manhattan_distance)\<lparr>nodes_expanded := 24, max_frontier_size := 25\<rparr>)
           \<lparr>board = [[1, 2, 3], [4, 5, 0], [7, 8, 6]], blank_pos = (1, 2)\<rparr> = Some (out, e')
       \<and> nodes_expanded e' = 25 \<and> max_frontier_size e' = 25)"
proof -
  let ?s = "\<lparr>board = [[1, 2, 3], [4, 5, 0], [7, 8, 6]], blank_pos = (1, 2)\<rparr>"
  let ?e = "(new_AStar new_game manhattan_distance)\<lparr>nodes_expanded := 24, max_frontier_size := 25\<rparr>"
  obtain out r where run: "search (new_AStar new_game manhattan_distance) ?s = Some (out, r)"
    and cnt: "nodes_expanded r = 1" "max_frontier_size r = 3"
    using one_move_search by (auto simp: report_def)
  have "search (new_AStar (game ?e) (heuristic_func ?e)) ?s = Some (out, r)"
    using run by (simp add: new_AStar_def)
  from search_accumulates [OF one_move_state_valid this] cnt run one_move_state_valid
  show ?thesis by (auto simp: new_AStar_def)
qed

section \<open>Repeated invocations\<close>

text \<open>
  C5 as stated fails for two invocations on one engine object: from the state
  [[1,2,3],[4,5,0],[7,8,6]] with the Manhattan heuristic both calls return the same path
  and peak 3, but the first reports 1 expansion and the second 2.
\<close>

theorem search_twice_counts_differ:
  "map_option (\<lambda>runs. (report (fst runs), report (snd runs)))
     (search_twice (new_AStar new_game manhattan_distance)
        \<lparr>board = [[1, 2, 3], [4, 5, 0], [7, 8, 6]], blank_pos = (1, 2)\<rparr>)
   = Some ((Returned (Some [\<lparr>board = [[1, 2, 3], [4, 5, 0], [7, 8, 6]], blank_pos = (1, 2)\<rparr>,
                             \<lparr>board = [[1, 2, 3], [4, 5, 6], [7, 8, 0]], blank_pos = (2, 2)\<rparr>]), 1, 3),
           (Returned (Some [\<lparr>board = [[1, 2, 3], [4, 5, 0], [7, 8, 6]], blank_pos = (1, 2)\<rparr>,
                             \<lparr>board = [[1, 2, 3], [4, 5, 6], [7, 8, 0]], blank_pos = (2, 2)\<rparr>]), 2, 3))"
  by code_simp

text \<open>The loop never changes the engine's game or heuristic.\<close>

lemma consider_neighbor_keeps:
  "game (self (consider_neighbor cur g nb v)) = game (self v)
   \<and> heuristic_func (self (consider_neighbor cur g nb v)) = heuristic_func (self v)"
  by (simp add: consider_neighbor_def Let_def)

lemma fold_consider_neighbor_keeps:
  "game (self (fold (consider_neighbor cur g) nbs v)) = game (self v)
   \<and> heuristic_func (self (fold (consider_neighbor cur g) nbs v)) = heuristic_func (self v)"
  by (induction nbs arbitrary: v) (simp_all add: consider_neighbor_keeps)

lemma loop_body_keeps:
  "(case loop_body v of
      Stop out e \<Rightarrow> game e = game (self v) \<and> heuristic_func e = heuristic_func (self v)
    | Goal current par e \<Rightarrow> game e = game (self v) \<and> heuristic_func e = heuristic_func (self v)
    | Continue v' \<Rightarrow>
        game (self v') = game (self v) \<and> heuristic_func (self v') = heuristic_func (self v))"
proof (cases "open_set v")
  case Nil
  then show ?thesis by (simp add: loop_body_def)
next
  case (Cons e es)
  obtain f c current rest where pop: "heappop (e # es) = ((f, c, current), rest)"
    by (rule heappop_cases)
  show ?thesis
    unfolding loop_body_pop [OF Cons pop]
    by (simp add: fold_consider_neighbor_keeps track_peak_def count_expansion_def
          split: option.splits)
qed

lemma search_loop_keeps:
  assumes "search_loop v = Some r"
  shows "game (snd r) = game (self v) \<and> heuristic_func (snd r) = heuristic_func (self v)"
proof (rule search_loop.raw_induct
    [where P = "\<lambda>v r. game (snd r) = game (self v) \<and> heuristic_func (snd r) = heuristic_func (self v)",
     OF _ assms], goal_cases)
  case (1 loop v r)
  show ?case
  proof (cases "loop_body v")
    case (Stop out e)
    with 1(2) loop_body_keeps [of v] show ?thesis by auto
  next
    case (Goal current par e)
    with 1(2) loop_body_keeps [of v] show ?thesis by auto
  next
    case (Continue v')
    with 1(2) have "loop v' = Some r" by simp
    from 1(1) [OF this] Continue loop_body_keeps [of v] show ?thesis by simp
  qed
qed

lemma search_keeps:
  assumes "search e s = Some (out, e')"
  shows "game e' = game e \<and> heuristic_func e' = heuristic_func e"
  using assms search_loop_keeps
    [of "\<lparr>open_set = heappush [] (heuristic_func e s (goal_states (game e)), 0, s), closed_set = {},
           g_values = [board s \<mapsto> 0], parent = [board s \<mapsto> None], counter = 0, self = e\<rparr>"
        "(out, e')"]
  by (simp add: search_def is_solvable_def)

text \<open>
  C5, amended: two invocations of \<open>search\<close> from the same valid initial state on engines
  with the same game and heuristic (two engines, or one engine object called twice, since
  a call leaves the game and heuristic as they were) either both do not return, or both
  return the identical outcome (path); each adds the same number \<open>k\<close> of expansions to the
  expansion count its engine held before the call, and leaves as peak frontier size the
  maximum of the peak its engine held before the call and the same run peak \<open>p\<close>. The
  counters after the two invocations are therefore identical when the engines held equal
  counters before (two freshly constructed engines); on one engine object the second
  invocation reports \<open>k\<close> more expansions than the first.
\<close>

theorem search_two_invocations:
  assumes "valid_state s"
    and "game e1 = game e2" and "heuristic_func e1 = heuristic_func e2"
  shows "(search e1 s = None \<and> search e2 s = None)
     \<or> (\<exists>out e1' e2' k p.
           search e1 s = Some (out, e1') \<and> search e2 s = Some (out, e2')
         \<and> nodes_expanded e1' = nodes_expanded e1 + k
         \<and> nodes_expanded e2' = nodes_expanded e2 + k
         \<and> max_frontier_size e1' = max (max_frontier_size e1) p
         \<and> max_frontier_size e2' = max (max_frontier_size e2) p
         \<and> game e1' = game e1 \<and> heuristic_func e1' = heuristic_func e1
         \<and> game e2' = game e2 \<and> heuristic_func e2' = heuristic_func e2)"
proof -
  let ?f = "new_AStar (game e1) (heuristic_func e1)"
  let ?c1 = "carry (nodes_expanded e1) (max_frontier_size e1) (search_tree e1)"
  let ?c2 = "carry (nodes_expanded e2) (max_frontier_size e2) (search_tree e2)"
  have "search e1 s = search (?c1 ?f) s"
    using engine_as_carry [of e1] by simp
  then have e1: "search e1 s = map_option (\<lambda>r. (fst r, ?c1 (snd r))) (search ?f s)"
    by (simp only: search_carry)
  have "search e2 s = search (?c2 ?f) s"
    using engine_as_carry [of e2] assms(2,3) by simp
  then have e2: "search e2 s = map_option (\<lambda>r. (fst r, ?c2 (snd r))) (search ?f s)"
    by (simp only: search_carry)
  show ?thesis
  proof (cases "search ?f s")
    case None
    with e1 e2 show ?thesis by simp
  next
    case (Some r)
    obtain out e' where r: "r = (out, e')" by (cases r)
    from Some r have "game e' = game ?f \<and> heuristic_func e' = heuristic_func ?f"
      using search_keeps by blast
    then have kept: "game e' = game e1" "heuristic_func e' = heuristic_func e1"
      by (simp_all add: new_AStar_def)
    have "search e1 s = Some (out, ?c1 e')" "search e2 s = Some (out, ?c2 e')"
      using e1 e2 Some r by simp_all
    moreover have "nodes_expanded (?c1 e') = nodes_expanded e1 + nodes_expanded e'"
      "nodes_expanded (?c2 e') = nodes_expanded e2 + nodes_expanded e'"
      "max_frontier_size (?c1 e') = max (max_frontier_size e1) (max_frontier_size e')"
      "max_frontier_size (?c2 e') = max (max_frontier_size e2) (max_frontier_size e')"
      "game (?c1 e') = game e1" "heuristic_func (?c1 e') = heuristic_func e1"
      "game (?c2 e') = game e2" "heuristic_func (?c2 e') = heuristic_func e2"
      using kept assms(2,3) by (simp_all add: carry_def)
    ultimately show ?thesis by blast
  qed
qed

text \<open>
  A fresh engine and an engine holding the counters the first call leaves (1 expansion,
  peak 3), both called on [[1,2,3],[4,5,0],[7,8,6]] with the Manhattan heuristic: both
  return the same two-state path; the first ends with 1 expansion and peak 3, the second
  with 2 expansions and peak 3.
\<close>

theorem search_two_invocations_witness:
  "valid_state \<lparr>board = [[1, 2, 3], [4, 5, 0], [7, 8, 6]], blank_pos = (1, 2)\<rparr>
   \<and> (\<exists>e1' e2'.
         search (new_AStar new_game manhattan_distance)
           \<lparr>board = [[1, 2, 3], [4, 5, 0], [7, 8, 6]], blank_pos = (1, 2)\<rparr>
         = Some (Returned (Some [\<lparr>board = [[1, 2, 3], [4, 5, 0], [7, 8, 6]], blank_pos = (1, 2)\<rparr>,
                                  \<lparr>board = [[1, 2, 3], [4, 5, 6], [7, 8, 0]], blank_pos = (2, 2)\<rparr>]), e1')
       \<and> nodes_expanded e1' = 1 \<and> max_frontier_size e1' = 3
       \<and> search ((new_AStar new_game manhattan_distance)\<lparr>nodes_expanded := 1, max_frontier_size := 3\<rparr>)
           \<lparr>board = [[1, 2, 3], [4, 5, 0], [7, 8, 6]], blank_pos = (1, 2)\<rparr>
         = Some (Returned (Some [\<lparr>board = [[1, 2, 3], [4, 5, 0], [7, 8, 6]], blank_pos = (1, 2)\<rparr>,
                                  \<lparr>board = [[1, 2, 3], [4, 5, 6], [7, 8, 0]], blank_pos = (2, 2)\<rparr>]), e2')
       \<and> nodes_expanded e2' = 2 \<and> max_frontier_size e2' = 3)"
proof -
  let ?s = "\<lparr>board = [[1, 2, 3], [4, 5, 0], [7, 8, 6]], blank_pos = (1, 2)\<rparr>"
  let ?p = "Returned (Some [?s, \<lparr>board = [[1, 2, 3], [4, 5, 6], [7, 8, 0]], blank_pos = (2, 2)\<rparr>])"
  let ?e1 = "new_AStar new_game manhattan_distance"
  let ?e2 = "(new_AStar new_game manhattan_distance)\<lparr>nodes_expanded := 1, max_frontier_size := 3\<rparr>"
  obtain r where first: "search ?e1 ?s = Some (?p, r)"
    and cnt: "nodes_expanded r = 1" "max_frontier_size r = 3"
    using one_move_search by (auto simp: report_def)
  have same: "game ?e1 = game ?e2" "heuristic_func ?e1 = heuristic_func ?e2"
    by simp_all
  from search_two_invocations [OF one_move_state_valid same] first
  obtain e2' k p where second: "search ?e2 ?s = Some (?p, e2')"
    and k: "nodes_expanded r = nodes_expanded ?e1 + k" "nodes_expanded e2' = nodes_expanded ?e2 + k"
    and p: "max_frontier_size r = max (max_frontier_size ?e1) p"
           "max_frontier_size e2' = max (max_frontier_size ?e2) p"
    by auto
  from k p cnt have "nodes_expanded e2' = 2" "max_frontier_size e2' = 3"
    by (simp_all add: new_AStar_def)
  with first second cnt one_move_state_valid show ?thesis by blast
qed

section \<open>The returned path\<close>

lemma is_path_Cons:
  "is_path (p # xs) \<longleftrightarrow>
     xs = [] \<or> (list_ex (\<lambda>n. state_eq n (hd xs)) (get_neighbors p) \<and> is_path xs)"
  by (cases xs) simp_all

lemma consider_neighbor_parent:
  "parent (consider_neighbor cur g nb v) = parent v
   \<or> parent (consider_neighbor cur g nb v) = (parent v)(board nb \<mapsto> Some cur)"
  by (simp add: consider_neighbor_def Let_def)

lemma consider_neighbor_game:
  "game (self (consider_neighbor cur g nb v)) = game (self v)"
  by (simp add: consider_neighbor_def Let_def)

lemma links_ok_update:
  assumes "links_ok s0 par" "nb \<in> set (get_neighbors cur)"
  shows "links_ok s0 (par(board nb \<mapsto> Some cur))"
  using assms unfolding links_ok_def by auto

lemma consider_neighbor_links:
  assumes "links_ok s0 (parent v)" "nb \<in> set (get_neighbors cur)"
  shows "links_ok s0 (parent (consider_neighbor cur g nb v))"
  using consider_neighbor_parent [of cur g nb v] assms links_ok_update by auto

lemma fold_consider_neighbor_links:
  assumes "links_ok s0 (parent v)" "set nbs \<subseteq> set (get_neighbors cur)"
  shows "links_ok s0 (parent (fold (consider_neighbor cur g) nbs v))
         \<and> game (self (fold (consider_neighbor cur g) nbs v)) = game (self v)"
  using assms
proof (induction nbs arbitrary: v)
  case Nil
  then show ?case by simp
next
  case (Cons nb nbs)
  have "links_ok s0 (parent (consider_neighbor cur g nb v))"
    using Cons.prems by (intro consider_neighbor_links) simp_all
  with Cons.IH [of "consider_neighbor cur g nb v"] Cons.prems(2)
  show ?case by (simp add: consider_neighbor_game)
qed

lemma loop_body_Continue:
  assumes "loop_body v = Continue v'" "links_ok s0 (parent v)"
  shows "links_ok s0 (parent v') \<and> game (self v') = game (self v)"
proof (cases "open_set v")
  case Nil
  with assms(1) show ?thesis by (simp add: loop_body_def)
next
  case (Cons e es)
  obtain f c current rest where pop: "heappop (e # es) = ((f, c, current), rest)"
    by (rule heappop_cases)
  let ?v1 = "v\<lparr>open_set := rest, closed_set := insert (board current) (closed_set v),
                self := count_expansion (track_peak v)\<rparr>"
  have start: "links_ok s0 (parent ?v1)" "game (self ?v1) = game (self v)"
    using assms(2) by (simp_all add: count_expansion_def track_peak_def)
  from assms(1) show ?thesis
    unfolding loop_body_pop [OF Cons pop]
    using assms(2) fold_consider_neighbor_links [OF start(1) subset_refl] start(2)
    by (auto simp: track_peak_def split: if_splits option.splits)
qed

lemma loop_body_Goal:
  assumes "loop_body v = Goal current par e"
  shows "par = parent v \<and> is_goal current (goal_states (game (self v)))"
proof (cases "open_set v")
  case Nil
  with assms show ?thesis by (simp add: loop_body_def)
next
  case (Cons e es)
  obtain f c cur rest where pop: "heappop (e # es) = ((f, c, cur), rest)"
    by (rule heappop_cases)
  from assms show ?thesis
    unfolding loop_body_pop [OF Cons pop]
    by (auto split: if_splits option.splits)
qed

text \<open>
  Following the parent links from \<open>current\<close>: the states collected so far, reversed, are a
  path that starts at \<open>current\<close>; when the walk ends it has reached the initial state.
\<close>

lemma reconstruct_loop_path:
  assumes "reconstruct_loop par current acc = Some out"
  shows "links_ok s0 par \<longrightarrow> acc \<noteq> [] \<longrightarrow> last acc = current \<longrightarrow> is_path (rev acc) \<longrightarrow>
     (\<forall>path. out = Returned (Some path) \<longrightarrow>
        path \<noteq> [] \<and> state_eq (hd path) s0 \<and> last path = hd acc \<and> is_path path)"
proof (rule reconstruct_loop.raw_induct
    [where P = "\<lambda>par current acc out.
       links_ok s0 par \<longrightarrow> acc \<noteq> [] \<longrightarrow> last acc = current \<longrightarrow> is_path (rev acc) \<longrightarrow>
       (\<forall>path. out = Returned (Some path) \<longrightarrow>
          path \<noteq> [] \<and> state_eq (hd path) s0 \<and> last path = hd acc \<and> is_path path)",
     OF _ assms], goal_cases)
  case (1 walk par current acc out)
  show ?case
  proof (intro impI allI)
    fix path
    assume ok: "links_ok s0 par" and ne: "acc \<noteq> []" and la: "last acc = current"
      and pa: "is_path (rev acc)" and out: "out = Returned (Some path)"
    show "path \<noteq> [] \<and> state_eq (hd path) s0 \<and> last path = hd acc \<and> is_path path"
    proof (cases "par (board current)")
      case None
      with 1(2) out show ?thesis by simp
    next
      case (Some link)
      show ?thesis
      proof (cases link)
        case None
        with Some 1(2) out have path: "path = rev acc" by simp
        from ok Some None have "board current = board s0"
          unfolding links_ok_def by blast
        then have "state_eq (hd (rev acc)) s0"
          using ne la by (simp add: state_eq_def hd_rev)
        with path ne pa show ?thesis by (simp add: last_rev)
      next
        case (Some p)
        with \<open>par (board current) = Some link\<close> 1(2)
        have step: "walk par p (acc @ [p]) = Some out" by simp
        from ok \<open>par (board current) = Some link\<close> Some
        obtain n where "n \<in> set (get_neighbors p)" "board n = board current"
          unfolding links_ok_def by blast
        then have "list_ex (\<lambda>n. state_eq n (hd (rev acc))) (get_neighbors p)"
          using ne la by (auto simp: list_ex_iff state_eq_def hd_rev)
        with pa have "is_path (rev (acc @ [p]))"
          by (simp add: is_path_Cons)
        with 1(1) [OF step] ok ne out show ?thesis by simp
      qed
    qed
  qed
qed

lemma reconstruct_path_ok:
  assumes "reconstruct_path par current = Some (Returned (Some path))" "links_ok s0 par"
  shows "path \<noteq> [] \<and> state_eq (hd path) s0 \<and> last path = current \<and> is_path path"
  using reconstruct_loop_path [of par current "[current]" "Returned (Some path)" s0] assms
  by (simp add: reconstruct_path_def)

lemma search_loop_path:
  assumes "search_loop v = Some r"
  shows "links_ok s0 (parent v) \<longrightarrow>
     (\<forall>path. fst r = Returned (Some path) \<longrightarrow>
        path \<noteq> [] \<and> state_eq (hd path) s0
        \<and> is_goal (last path) (goal_states (game (self v))) \<and> is_path path)"
proof (rule search_loop.raw_induct
    [where P = "\<lambda>v r. links_ok s0 (parent v) \<longrightarrow>
       (\<forall>path. fst r = Returned (Some path) \<longrightarrow>
          path \<noteq> [] \<and> state_eq (hd path) s0
          \<and> is_goal (last path) (goal_states (game (self v))) \<and> is_path path)",
     OF _ assms], goal_cases)
  case (1 loop v r)
  show ?case
  proof (intro impI allI)
    fix path
    assume ok: "links_ok s0 (parent v)" and out: "fst r = Returned (Some path)"
    show "path \<noteq> [] \<and> state_eq (hd path) s0
          \<and> is_goal (last path) (goal_states (game (self v))) \<and> is_path path"
    proof (cases "loop_body v")
      case (Stop o' e)
      with 1(2) out show ?thesis
        by (auto simp: loop_body_def Let_def split: list.splits prod.splits if_splits option.splits
              simp del: heappop.simps)
    next
      case (Goal current par e)
      with 1(2) out have "reconstruct_path par current = Some (Returned (Some path))"
        by auto
      moreover from Goal have "par = parent v" "is_goal current (goal_states (game (self v)))"
        using loop_body_Goal by blast+
      ultimately show ?thesis
        using reconstruct_path_ok [of par current path s0] ok by simp
    next
      case (Continue v')
      with 1(2) have "loop v' = Some r" by simp
      from 1(1) [OF this] have ih: "links_ok s0 (parent v') \<longrightarrow>
          (\<forall>path. fst r = Returned (Some path) \<longrightarrow>
             path \<noteq> [] \<and> state_eq (hd path) s0
             \<and> is_goal (last path) (goal_states (game (self v'))) \<and> is_path path)" .
      from Continue ok have "links_ok s0 (parent v')" "game (self v') = game (self v)"
        using loop_body_Continue by blast+
      with ih out show ?thesis by auto
    qed
  qed
qed

text \<open>
  C2: from a valid initial state, a path returned by \<open>search\<close> starts with a state equal
  to the initial state (equality of states is equality of grids), ends in a state whose
  grid is one of the goal grids of the engine's game (the four grids of \<open>new_game\<close> for
  the puzzle), and each state is followed by one of its neighbours under the transition
  rule.
\<close>

theorem search_path_valid:
  assumes "valid_state s0"
    and "search e s0 = Some (Returned (Some path), e')"
  shows "path \<noteq> [] \<and> state_eq (hd path) s0
         \<and> is_goal (last path) (goal_states (game e)) \<and> is_path path"
proof -
  let ?v = "\<lparr>open_set = heappush [] (heuristic_func e s0 (goal_states (game e)), 0, s0),
             closed_set = {}, g_values = [board s0 \<mapsto> 0], parent = [board s0 \<mapsto> None],
             counter = 0, self = e\<rparr>"
  from assms(2) have "search_loop ?v = Some (Returned (Some path), e')"
    by (simp add: search_def is_solvable_def)
  moreover have "links_ok s0 (parent ?v)"
    by (simp add: links_ok_def)
  ultimately show ?thesis
    using search_loop_path [of ?v "(Returned (Some path), e')" s0] by simp
qed

lemma start_state_valid:
  "valid_state \<lparr>board = [[1, 2, 3], [4, 0, 5], [7, 8, 6]], blank_pos = (1, 1)\<rparr>"
  by (simp add: valid_state_def valid_board_def grid3_def in_grid_def at_def)

lemma start_state_search:
  "map_option fst (search (new_AStar new_game manhattan_distance)
      \<lparr>board = [[1, 2, 3], [4, 0, 5], [7, 8, 6]], blank_pos = (1, 1)\<rparr>)
   = Some (Returned (Some [\<lparr>board = [[1, 2, 3], [4, 0, 5], [7, 8, 6]], blank_pos = (1, 1)\<rparr>,
                            \<lparr>board = [[1, 2, 3], [4, 5, 0], [7, 8, 6]], blank_pos = (1, 2)\<rparr>,
                            \<lparr>board = [[1, 2, 3], [4, 5, 6], [7, 8, 0]], blank_pos = (2, 2)\<rparr>]))"
  by code_simp

text \<open>The default initial state of the command-line program, with the Manhattan heuristic.\<close>

theorem search_path_valid_witness:
  "valid_state \<lparr>board = [[1, 2, 3], [4, 0, 5], [7, 8, 6]], blank_pos = (1, 1)\<rparr>
   \<and> (\<exists>e'. search (new_AStar new_game manhattan_distance)
              \<lparr>board = [[1, 2, 3], [4, 0, 5], [7, 8, 6]], blank_pos = (1, 1)\<rparr>
         = Some (Returned (Some
             [\<lparr>board = [[1, 2, 3], [4, 0, 5], [7, 8, 6]], blank_pos = (1, 1)\<rparr>,
              \<lparr>board = [[1, 2, 3], [4, 5, 0], [7, 8, 6]], blank_pos = (1, 2)\<rparr>,
              \<lparr>board = [[1, 2, 3], [4, 5, 6], [7, 8, 0]], blank_pos = (2, 2)\<rparr>]), e'))
   \<and> state_eq \<lparr>board = [[1, 2, 3], [4, 0, 5], [7, 8, 6]], blank_pos = (1, 1)\<rparr>
               \<lparr>board = [[1, 2, 3], [4, 0, 5], [7, 8, 6]], blank_pos = (1, 1)\<rparr>
   \<and> is_goal \<lparr>board = [[1, 2, 3], [4, 5, 6], [7, 8, 0]], blank_pos = (2, 2)\<rparr> (goal_states new_game)
   \<and> is_path [\<lparr>board = [[1, 2, 3], [4, 0, 5], [7, 8, 6]], blank_pos = (1, 1)\<rparr>,
              \<lparr>board = [[1, 2, 3], [4, 5, 0], [7, 8, 6]], blank_pos = (1, 2)\<rparr>,
              \<lparr>board = [[1, 2, 3], [4, 5, 6], [7, 8, 0]], blank_pos = (2, 2)\<rparr>]"
proof -
  let ?s = "\<lparr>board = [[1, 2, 3], [4, 0, 5], [7, 8, 6]], blank_pos = (1, 1)\<rparr>"
  let ?p = "[?s, \<lparr>board = [[1, 2, 3], [4, 5, 0], [7, 8, 6]], blank_pos = (1, 2)\<rparr>,
             \<lparr>board = [[1, 2, 3], [4, 5, 6], [7, 8, 0]], blank_pos = (2, 2)\<rparr>]"
  obtain e' where run: "search (new_AStar new_game manhattan_distance) ?s = Some (Returned (Some ?p), e')"
    using start_state_search by auto
  from search_path_valid [OF start_state_valid run]
  have "state_eq (hd ?p) ?s \<and> is_goal (last ?p) (goal_states new_game) \<and> is_path ?p"
    by (simp add: new_AStar_def)
  with run start_state_valid show ?thesis by auto
qed
end
